theory Spec2Isabelle
  imports Complex_Main "HOL-Library.List_Lexorder" "HOL-Library.Char_ord"
begin


section \<open>Data model and shared utilities\<close>

text \<open>
  Scores and amounts are Python floats and are modelled as reals (no NaN, no infinity);
  instants are whole seconds; account ids are Python strings, compared by code point,
  which is the lexicographic order on \<open>string\<close>. An exception raised by the Python
  code is a result \<open>Inl e\<close>; a function that cannot raise has a plain result.
\<close>

datatype py_error = ValueError | KeyError | IndexError | ZeroDivisionError

type_synonym account = string

text \<open>\<^verbatim>\<open>clamp01(x) = max(0.0, min(1.0, x))\<close>\<close>

definition clamp01 :: "real \<Rightarrow> real" where
  "clamp01 x = max 0 (min 1 x)"

text \<open>\<^verbatim>\<open>list.index(x)\<close>: the first position of \<open>x\<close>, ValueError when it is absent.\<close>

fun list_index :: "'a list \<Rightarrow> 'a \<Rightarrow> py_error + nat" where
  "list_index [] x = Inl ValueError"
| "list_index (y # ys) x =
     (if y = x then Inr 0
      else (case list_index ys x of Inl e \<Rightarrow> Inl e | Inr i \<Rightarrow> Inr (Suc i)))"

text \<open>
  \<^verbatim>\<open>normalize_cycle(cycle)\<close>: \<^verbatim>\<open>idx = cycle.index(min(cycle))\<close>, then
  \<^verbatim>\<open>tuple(cycle[idx:] + cycle[:idx])\<close>. \<^verbatim>\<open>min\<close> of an empty sequence raises ValueError.
\<close>

definition normalize_cycle :: "'a::linorder list \<Rightarrow> py_error + 'a list" where
  "normalize_cycle cycle =
     (if cycle = [] then Inl ValueError
      else (case list_index cycle (Min (set cycle)) of
              Inl e \<Rightarrow> Inl e
            | Inr idx \<Rightarrow> Inr (drop idx cycle @ take idx cycle)))"

text \<open>
  The amount field of a record, seen through \<^verbatim>\<open>float\<close>: the key is missing (the
  callers then pass the default 0), or \<^verbatim>\<open>float\<close> returns a number, or it raises.
\<close>

datatype amount_field = AmountMissing | AmountNumber real | AmountUnparseable

text \<open>
  A transaction record, a dict with the four keys of the ingestion contract. An id or a
  timestamp is \<open>None\<close> when the key is missing or its value is None.
\<close>

record txn =
  sender_id :: "string option"
  receiver_id :: "string option"
  amount :: amount_field
  timestamp :: "string option"

text \<open>
  The two kinds of output record and the result of one engine: the dicts with keys
  \<^verbatim>\<open>suspicious_accounts\<close> and \<^verbatim>\<open>fraud_rings\<close> (the summary counts and the processing
  time are left out). \<open>detected_at\<close> keeps the instant that the code formats as a string.
\<close>

record suspicious_account =
  account_id :: account
  suspicion_score :: real
  detected_patterns :: "string list"
  ring_id :: string

record fraud_ring =
  ring_id :: string
  member_accounts :: "account list"
  pattern_type :: string
  risk_score :: real
  detected_at :: "int option"

record detector_result =
  suspicious_accounts :: "suspicious_account list"
  fraud_rings :: "fraud_ring list"

text \<open>
  Truth value of an id in \<^verbatim>\<open>if s and r\<close> and \<^verbatim>\<open>if not ts\<close>: None and the empty
  string are false.
\<close>

definition truthy :: "string option \<Rightarrow> bool" where
  "truthy s = (case s of None \<Rightarrow> False | Some v \<Rightarrow> v \<noteq> [])"

text \<open>
  \<^verbatim>\<open>float(txn.get("amount", 0))\<close> and \<^verbatim>\<open>safe_float\<close>, which catches the exception and
  returns 0.0 (\<^verbatim>\<open>circular_fund_detector.py\<close>, lines 70-74).
\<close>

definition py_float :: "amount_field \<Rightarrow> py_error + real" where
  "py_float x = (case x of AmountMissing \<Rightarrow> Inr 0 | AmountNumber v \<Rightarrow> Inr v
                 | AmountUnparseable \<Rightarrow> Inl ValueError)"

definition safe_float :: "amount_field \<Rightarrow> real" where
  "safe_float x = (case py_float x of Inl e \<Rightarrow> 0 | Inr v \<Rightarrow> v)"

text \<open>
  \<^verbatim>\<open>parse_ts\<close> (the same function in both modules): None for an empty timestamp,
  otherwise the first of the four formats that parses. The library call
  \<^verbatim>\<open>datetime.strptime(ts.strip(), fmt)\<close> is the parameter \<open>sp\<close>: \<open>sp s fmt\<close> is the
  parsed instant, or \<open>None\<close> when the call raises ValueError.
\<close>

type_synonym strptime = "string \<Rightarrow> string \<Rightarrow> int option"

definition ts_formats :: "string list" where
  "ts_formats = [''%Y-%m-%d %H:%M:%S'', ''%d-%m-%Y %H:%M:%S'', ''%d-%m-%Y %H:%M'', ''%Y-%m-%d'']"

fun try_formats :: "strptime \<Rightarrow> string \<Rightarrow> string list \<Rightarrow> int option" where
  "try_formats sp s [] = None"
| "try_formats sp s (fmt # fmts) =
     (case sp s fmt of Some t \<Rightarrow> Some t | None \<Rightarrow> try_formats sp s fmts)"

definition parse_ts :: "strptime \<Rightarrow> string option \<Rightarrow> int option" where
  "parse_ts sp ts = (if \<not> truthy ts then None else try_formats sp (the ts) ts_formats)"

text \<open>
  A Python dict keeps its keys in insertion order: it is modelled as an association list
  with distinct keys. \<open>dict_append k v d\<close> is \<^verbatim>\<open>d[k].append(v)\<close> on a
  \<^verbatim>\<open>defaultdict(list)\<close>.
\<close>

fun dict_append :: "'k \<Rightarrow> 'v \<Rightarrow> ('k \<times> 'v list) list \<Rightarrow> ('k \<times> 'v list) list" where
  "dict_append k v [] = [(k, [v])]"
| "dict_append k v ((k', vs) # rest) =
     (if k' = k then (k', vs @ [v]) # rest else (k', vs) # dict_append k v rest)"

section \<open>Smurfing detector\<close>

text \<open>
  One entry of \<^verbatim>\<open>self.fan_in[r]\<close> or \<^verbatim>\<open>self.fan_out[s]\<close>: the counterparty (key
  \<^verbatim>\<open>sender\<close>, respectively \<^verbatim>\<open>receiver\<close>), the parsed timestamp and the amount.
\<close>

record fan_entry =
  party :: account
  ts :: int
  fan_amount :: real

type_synonym fan_dict = "(account \<times> fan_entry list) list"

text \<open>
  The grouping loop of \<^verbatim>\<open>SmurfingDetector.run\<close> (lines 44-52). The amount is converted
  with a bare \<^verbatim>\<open>float\<close> before the test \<^verbatim>\<open>if s and r and ts\<close>, so an unparseable amount
  raises for every record, kept or not.
\<close>

fun group_txns :: "strptime \<Rightarrow> txn list \<Rightarrow> fan_dict \<Rightarrow> fan_dict \<Rightarrow> py_error + (fan_dict \<times> fan_dict)" where
  "group_txns sp [] fan_in fan_out = Inr (fan_in, fan_out)"
| "group_txns sp (t # rest) fan_in fan_out =
     (let s = sender_id t; r = receiver_id t; tsv = parse_ts sp (timestamp t) in
      case py_float (amount t) of
        Inl e \<Rightarrow> Inl e
      | Inr a \<Rightarrow>
          if truthy s \<and> truthy r \<and> tsv \<noteq> None
          then group_txns sp rest
                 (dict_append (the r) \<lparr>party = the s, ts = the tsv, fan_amount = a\<rparr> fan_in)
                 (dict_append (the s) \<lparr>party = the r, ts = the tsv, fan_amount = a\<rparr> fan_out)
          else group_txns sp rest fan_in fan_out)"

text \<open>
  \<^verbatim>\<open>timedelta(hours=TIME_WINDOW_HOURS)\<close> in seconds, and the two thresholds.
\<close>

definition TIME_WINDOW_SECONDS :: int where "TIME_WINDOW_SECONDS = 72 * 3600"

definition FAN_IN_THRESHOLD :: nat where "FAN_IN_THRESHOLD = 10"

definition FAN_OUT_THRESHOLD :: nat where "FAN_OUT_THRESHOLD = 10"

text \<open>
  The inner \<^verbatim>\<open>while\<close> loop (lines 73-74): \<open>start_idx\<close> advances while it is below \<open>i\<close>
  and transaction \<open>i\<close> is more than 72 hours after transaction \<open>start_idx\<close>.
\<close>

function advance :: "fan_entry list \<Rightarrow> nat \<Rightarrow> nat \<Rightarrow> nat" where
  "advance txns start_idx i =
     (if start_idx < i \<and> ts (txns ! i) - ts (txns ! start_idx) > TIME_WINDOW_SECONDS
      then advance txns (Suc start_idx) i else start_idx)"
  by pat_completeness auto

termination
  by (relation "measure (\<lambda>(txns, start_idx, i). i - start_idx)") auto

declare advance.simps [simp del]

text \<open>
  The \<^verbatim>\<open>for i in range(len(txns))\<close> loop (lines 69-95): the window is
  \<^verbatim>\<open>txns[start_idx : i+1]\<close>; at the first \<open>i\<close> whose window has at least \<open>threshold\<close>
  distinct counterparties the loop breaks, and the result is \<open>i\<close> with those
  counterparties. A Python set has no specified iteration order: the list of distinct
  counterparties stands for \<^verbatim>\<open>list(senders)\<close>, and no statement depends on its order.
\<close>

function scan :: "nat \<Rightarrow> fan_entry list \<Rightarrow> nat \<Rightarrow> nat \<Rightarrow> (nat \<times> account list) option" where
  "scan threshold txns start_idx i =
     (if i < length txns then
        (let start' = advance txns start_idx i;
             current_window = take (Suc i - start') (drop start' txns);
             parties = remdups (map party current_window)
         in if length parties \<ge> threshold then Some (i, parties)
            else scan threshold txns start' (Suc i))
      else None)"
  by pat_completeness auto

termination
  by (relation "measure (\<lambda>(threshold, txns, start_idx, i). length txns - i)") auto

declare scan.simps [simp del]

text \<open>
  What the fan-in loop appends for one account (lines 58-95), and the fan-out loop
  (lines 98-126): nothing, or one suspicious-account record and one ring.
\<close>

definition fan_in_record :: "account \<Rightarrow> fan_entry list \<Rightarrow> (suspicious_account \<times> fraud_ring) option" where
  "fan_in_record acc txns =
     (let sorted = sort_key ts txns in
      case scan FAN_IN_THRESHOLD sorted 0 0 of
        None \<Rightarrow> None
      | Some (i, senders) \<Rightarrow> Some
          (\<lparr>account_id = acc, suspicion_score = 80, detected_patterns = [''fan_in''],
            ring_id = ''SMURF_IN_'' @ acc\<rparr>,
           \<lparr>ring_id = ''SMURF_IN_'' @ acc, member_accounts = senders @ [acc],
            pattern_type = ''fan_in'', risk_score = 85,
            detected_at = Some (ts (sorted ! i))\<rparr>))"

definition fan_out_record :: "account \<Rightarrow> fan_entry list \<Rightarrow> (suspicious_account \<times> fraud_ring) option" where
  "fan_out_record acc txns =
     (let sorted = sort_key ts txns in
      case scan FAN_OUT_THRESHOLD sorted 0 0 of
        None \<Rightarrow> None
      | Some (i, receivers) \<Rightarrow> Some
          (\<lparr>account_id = acc, suspicion_score = 80, detected_patterns = [''fan_out''],
            ring_id = ''SMURF_OUT_'' @ acc\<rparr>,
           \<lparr>ring_id = ''SMURF_OUT_'' @ acc, member_accounts = acc # receivers,
            pattern_type = ''fan_out'', risk_score = 85,
            detected_at = Some (ts (sorted ! i))\<rparr>))"

text \<open>
  \<^verbatim>\<open>SmurfingDetector.run\<close>: the records of the fan-in accounts, in the insertion order of
  the dict, then those of the fan-out accounts.
\<close>

definition SmurfingDetector_run :: "strptime \<Rightarrow> txn list \<Rightarrow> py_error + detector_result" where
  "SmurfingDetector_run sp transactions =
     (case group_txns sp transactions [] [] of
        Inl e \<Rightarrow> Inl e
      | Inr (fan_in, fan_out) \<Rightarrow>
          (let ins = List.map_filter (\<lambda>(acc, txns). fan_in_record acc txns) fan_in;
               outs = List.map_filter (\<lambda>(acc, txns). fan_out_record acc txns) fan_out
           in Inr \<lparr>suspicious_accounts = map fst ins @ map fst outs,
                   fraud_rings = map snd ins @ map snd outs\<rparr>))"

section \<open>Shell network detector\<close>

text \<open>
  A \<^verbatim>\<open>networkx.DiGraph\<close> without attributes: its nodes and its edges, both in
  insertion order and without duplicates. \<^verbatim>\<open>in_degree\<close> and \<^verbatim>\<open>out_degree\<close> count edges,
  a self-loop once in each; \<^verbatim>\<open>subgraph\<close> keeps the nodes of the given set and the edges
  between them. A Python set of nodes is a list of its elements.
\<close>

record digraph =
  nodes :: "account list"
  edges :: "(account \<times> account) list"

definition empty_graph :: digraph where
  "empty_graph = \<lparr>nodes = [], edges = []\<rparr>"

definition add_node :: "account \<Rightarrow> digraph \<Rightarrow> digraph" where
  "add_node n G = (if n \<in> set (nodes G) then G else G\<lparr>nodes := nodes G @ [n]\<rparr>)"

definition add_edge :: "account \<Rightarrow> account \<Rightarrow> digraph \<Rightarrow> digraph" where
  "add_edge u v G =
     (let G' = add_node v (add_node u G)
      in if (u, v) \<in> set (edges G') then G' else G'\<lparr>edges := edges G' @ [(u, v)]\<rparr>)"

definition in_degree :: "digraph \<Rightarrow> account \<Rightarrow> nat" where
  "in_degree G n = length (filter (\<lambda>e. snd e = n) (edges G))"

definition out_degree :: "digraph \<Rightarrow> account \<Rightarrow> nat" where
  "out_degree G n = length (filter (\<lambda>e. fst e = n) (edges G))"

definition subgraph :: "digraph \<Rightarrow> account list \<Rightarrow> digraph" where
  "subgraph G S =
     \<lparr>nodes = filter (\<lambda>n. n \<in> set S) (nodes G),
      edges = filter (\<lambda>e. fst e \<in> set S \<and> snd e \<in> set S) (edges G)\<rparr>"

text \<open>
  \<^verbatim>\<open>node_txn_counts[k] = node_txn_counts.get(k, 0) + 1\<close>.
\<close>

fun dict_incr :: "'k \<Rightarrow> ('k \<times> nat) list \<Rightarrow> ('k \<times> nat) list" where
  "dict_incr k [] = [(k, 1)]"
| "dict_incr k ((k', c) # rest) =
     (if k' = k then (k', c + 1) # rest else (k', c) # dict_incr k rest)"

text \<open>
  The loop of \<^verbatim>\<open>ShellNetworkDetector.run\<close> that builds the graph and the counts
  (lines 26-34). Its only test is \<^verbatim>\<open>if s and r\<close>.
\<close>

fun shell_build :: "txn list \<Rightarrow> digraph \<Rightarrow> (account \<times> nat) list \<Rightarrow> digraph \<times> (account \<times> nat) list" where
  "shell_build [] G node_txn_counts = (G, node_txn_counts)"
| "shell_build (t # rest) G node_txn_counts =
     (let s = sender_id t; r = receiver_id t in
      if truthy s \<and> truthy r
      then shell_build rest (add_edge (the s) (the r) G)
             (dict_incr (the r) (dict_incr (the s) node_txn_counts))
      else shell_build rest G node_txn_counts)"

text \<open>
  The two graph-library calls of the shell detector are parameters:
  \<^verbatim>\<open>nx.weakly_connected_components(G)\<close> and
  \<^verbatim>\<open>nx.all_simple_paths(G, source=start, target=[...])\<close>, each with its results in the
  order in which the library yields them.
\<close>

type_synonym wcc_fn = "digraph \<Rightarrow> account list list"

type_synonym paths_fn = "digraph \<Rightarrow> account \<Rightarrow> account list \<Rightarrow> account list list"

text \<open>
  The loop over \<^verbatim>\<open>paths\<close> (lines 108-122): the first path with at least two nodes whose
  first node has an incoming edge and whose last node has an outgoing edge in the full
  graph.
\<close>

fun find_path :: "digraph \<Rightarrow> account list list \<Rightarrow> account list option" where
  "find_path G [] = None"
| "find_path G (path # rest) =
     (if length path \<ge> 2 \<and> in_degree G (hd path) > 0 \<and> out_degree G (last path) > 0
      then Some path else find_path G rest)"

text \<open>
  The loop over \<^verbatim>\<open>start_nodes\<close> (lines 100-124), which stops at the first start node
  that has such a path.
\<close>

fun find_chain :: "paths_fn \<Rightarrow> digraph \<Rightarrow> digraph \<Rightarrow> account list \<Rightarrow> account list \<Rightarrow> account list option" where
  "find_chain all_simple_paths G comp_sub component [] = None"
| "find_chain all_simple_paths G comp_sub component (start # rest) =
     (case find_path G (all_simple_paths comp_sub start component) of
        Some path \<Rightarrow> Some path
      | None \<Rightarrow> find_chain all_simple_paths G comp_sub component rest)"

text \<open>
  The three variables that the loop over the components updates:
  \<^verbatim>\<open>detected_shells\<close>, \<^verbatim>\<open>suspicious_accounts\<close> and \<^verbatim>\<open>rings\<close>.
\<close>

record shell_state =
  detected_shells :: "account set"
  sh_suspicious :: "suspicious_account list"
  sh_rings :: "fraud_ring list"

text \<open>
  The loop over \<^verbatim>\<open>chain_members\<close> (lines 136-144).
\<close>

fun mark_members :: "string \<Rightarrow> account list \<Rightarrow> shell_state \<Rightarrow> shell_state" where
  "mark_members rid [] st = st"
| "mark_members rid (member # rest) st =
     (if member \<notin> detected_shells st
      then mark_members rid rest
             (st\<lparr>detected_shells := insert member (detected_shells st),
                 sh_suspicious := sh_suspicious st @
                   [\<lparr>account_id = member, suspicion_score = 75,
                     detected_patterns = [''shell_account''], ring_id = rid\<rparr>]\<rparr>)
      else mark_members rid rest st)"

text \<open>
  The loop over the weakly connected components of the shell subgraph (lines 83-144).
\<close>

fun scan_components :: "paths_fn \<Rightarrow> digraph \<Rightarrow> digraph \<Rightarrow> account list list \<Rightarrow> shell_state \<Rightarrow> shell_state" where
  "scan_components all_simple_paths G shell_subgraph [] st = st"
| "scan_components all_simple_paths G shell_subgraph (component # rest) st =
     (if length component \<ge> 2 then
        (let comp_sub = subgraph shell_subgraph component;
             start_nodes = filter (\<lambda>n. in_degree G n > 0) component
         in case find_chain all_simple_paths G comp_sub component start_nodes of
              None \<Rightarrow> scan_components all_simple_paths G shell_subgraph rest st
            | Some chain_members \<Rightarrow>
                (let rid = ''SHELL_'' @ hd chain_members;
                     st' = st\<lparr>sh_rings := sh_rings st @
                             [\<lparr>ring_id = rid, member_accounts = chain_members,
                               pattern_type = ''shell_network'', risk_score = 75,
                               detected_at = None\<rparr>]\<rparr>
                 in scan_components all_simple_paths G shell_subgraph rest
                      (mark_members rid chain_members st')))
      else scan_components all_simple_paths G shell_subgraph rest st)"

text \<open>
  \<^verbatim>\<open>ShellNetworkDetector.run\<close>. \<open>shells\<close> is the set of nodes with 2 or 3
  transactions; the loop of lines 70-76 only skips and passes, and is left out.
\<close>

definition ShellNetworkDetector_run :: "wcc_fn \<Rightarrow> paths_fn \<Rightarrow> txn list \<Rightarrow> detector_result" where
  "ShellNetworkDetector_run weakly_connected_components all_simple_paths transactions =
     (let (G, node_txn_counts) = shell_build transactions empty_graph [];
          shells = map fst (filter (\<lambda>(node, count). 2 \<le> count \<and> count \<le> 3) node_txn_counts)
      in if shells = [] then \<lparr>suspicious_accounts = [], fraud_rings = []\<rparr>
         else
           (let shell_subgraph = subgraph G shells;
                st = scan_components all_simple_paths G shell_subgraph
                       (weakly_connected_components shell_subgraph)
                       \<lparr>detected_shells = {}, sh_suspicious = [], sh_rings = []\<rparr>
            in \<lparr>suspicious_accounts = sh_suspicious st, fraud_rings = sh_rings st\<rparr>))"

text \<open>
  Reference implementations of the two library calls, used where a statement is
  instantiated on a concrete batch: the component of a node is found by closing under
  neighbours, the simple paths from a node by depth-first extension.
\<close>

fun grow :: "nat \<Rightarrow> digraph \<Rightarrow> account list \<Rightarrow> account list" where
  "grow 0 G c = c"
| "grow (Suc n) G c =
     grow n G (remdups (c @ filter (\<lambda>w. \<exists>u\<in>set c. (u, w) \<in> set (edges G) \<or> (w, u) \<in> set (edges G)) (nodes G)))"

fun components :: "nat \<Rightarrow> digraph \<Rightarrow> account list \<Rightarrow> account list list" where
  "components 0 G todo = []"
| "components (Suc n) G [] = []"
| "components (Suc n) G (v # todo) =
     (let c = grow (length (nodes G)) G [v]
      in c # components n G (filter (\<lambda>u. u \<notin> set c) todo))"

definition ref_weakly_connected_components :: wcc_fn where
  "ref_weakly_connected_components G = components (length (nodes G)) G (nodes G)"

fun extend_paths :: "nat \<Rightarrow> digraph \<Rightarrow> account list \<Rightarrow> account list list" where
  "extend_paths 0 G p = []"
| "extend_paths (Suc n) G p =
     concat (map (\<lambda>w. if w \<in> set p then [] else rev (w # p) # extend_paths n G (w # p))
                 (filter (\<lambda>w. (hd p, w) \<in> set (edges G)) (nodes G)))"

definition ref_all_simple_paths :: paths_fn where
  "ref_all_simple_paths G source targets =
     filter (\<lambda>p. last p \<in> set targets) (extend_paths (length (nodes G)) G [source])"

text \<open>
  Scenario D of the specification: Source, three shells, Dest.
\<close>

definition sh_txn :: "string \<Rightarrow> string \<Rightarrow> txn" where
  "sh_txn s r = \<lparr>sender_id = Some s, receiver_id = Some r, amount = AmountNumber 100, timestamp = None\<rparr>"

definition shell_batch :: "txn list" where
  "shell_batch = [sh_txn ''Source'' ''Shell1'', sh_txn ''Shell1'' ''Shell2'',
                  sh_txn ''Shell2'' ''Shell3'', sh_txn ''Shell3'' ''Dest'']"

section \<open>Circular fund routing detector\<close>

definition MIN_CYCLE_LEN :: nat where "MIN_CYCLE_LEN = 3"

definition MAX_CYCLE_LEN :: nat where "MAX_CYCLE_LEN = 5"

definition MAX_ALLOWED_DURATION :: real where "MAX_ALLOWED_DURATION = 7 * 24 * 3600"

definition HIGH_RISK_THRESHOLD :: real where "HIGH_RISK_THRESHOLD = 0"

definition HIGH_RISK_CYCLE_COUNT :: nat where "HIGH_RISK_CYCLE_COUNT = 3"

definition HUB_DEGREE_LIMIT :: nat where "HUB_DEGREE_LIMIT = 20"

definition W_LENGTH :: real where "W_LENGTH = 25 / 100"

definition W_AMOUNT :: real where "W_AMOUNT = 20 / 100"

definition W_TIME :: real where "W_TIME = 20 / 100"

definition W_FREQUENCY :: real where "W_FREQUENCY = 20 / 100"

definition W_VOLUME :: real where "W_VOLUME = 15 / 100"

text \<open>
  \<^verbatim>\<open>self.graph\<close> of the circular detector is a DiGraph whose edges carry \<^verbatim>\<open>weight\<close>
  and \<^verbatim>\<open>total_amount\<close>: the state holds its nodes, its edges with their data (an
  association list in insertion order), and \<^verbatim>\<open>self.edge_meta\<close>. \<open>structure_of\<close> is
  the graph without the edge data, which is all that pruning and enumeration use.
\<close>

record edge_data =
  weight :: nat
  total_amount :: real

record edge_meta_entry =
  meta_amount :: real
  meta_timestamp :: "int option"

type_synonym edge = "account \<times> account"

record circular_state =
  graph_nodes :: "account list"
  graph_edges :: "(edge \<times> edge_data) list"
  edge_meta :: "(edge \<times> edge_meta_entry list) list"

definition structure_of :: "circular_state \<Rightarrow> digraph" where
  "structure_of st = \<lparr>nodes = graph_nodes st, edges = map fst (graph_edges st)\<rparr>"

text \<open>
  \<^verbatim>\<open>build_graph\<close> (lines 182-202): a record with a missing id or with equal sender and
  receiver is skipped; otherwise the edge is created with weight 1 or its weight and
  total are increased, and the amount and timestamp are appended to the edge metadata.
\<close>

fun upsert_edge :: "edge \<Rightarrow> real \<Rightarrow> (edge \<times> edge_data) list \<Rightarrow> (edge \<times> edge_data) list" where
  "upsert_edge e amt [] = [(e, \<lparr>weight = 1, total_amount = amt\<rparr>)]"
| "upsert_edge e amt ((k, d) # rest) =
     (if k = e then (k, d\<lparr>weight := weight d + 1, total_amount := total_amount d + amt\<rparr>) # rest
      else (k, d) # upsert_edge e amt rest)"

definition add_account :: "account \<Rightarrow> account list \<Rightarrow> account list" where
  "add_account n ns = (if n \<in> set ns then ns else ns @ [n])"

fun build_graph :: "strptime \<Rightarrow> txn list \<Rightarrow> circular_state \<Rightarrow> circular_state" where
  "build_graph sp [] st = st"
| "build_graph sp (t # rest) st =
     (let s = sender_id t; r = receiver_id t in
      if \<not> truthy s \<or> \<not> truthy r \<or> s = r then build_graph sp rest st
      else
        (let amt = safe_float (amount t); tsv = parse_ts sp (timestamp t); e = (the s, the r)
         in build_graph sp rest
              \<lparr>graph_nodes = add_account (the r) (add_account (the s) (graph_nodes st)),
               graph_edges = upsert_edge e amt (graph_edges st),
               edge_meta = dict_append e \<lparr>meta_amount = amt, meta_timestamp = tsv\<rparr> (edge_meta st)\<rparr>))"

text \<open>
  \<^verbatim>\<open>prune\<close> (lines 204-214). \<^verbatim>\<open>int(0.1 * n)\<close> is \<open>n div 10\<close>; the hubs are
  removed first, and the leaves are those of the graph without the hubs.
\<close>

definition remove_nodes_from :: "account list \<Rightarrow> digraph \<Rightarrow> digraph" where
  "remove_nodes_from ns G =
     \<lparr>nodes = filter (\<lambda>n. n \<notin> set ns) (nodes G),
      edges = filter (\<lambda>e. fst e \<notin> set ns \<and> snd e \<notin> set ns) (edges G)\<rparr>"

definition degree :: "digraph \<Rightarrow> account \<Rightarrow> nat" where
  "degree G n = in_degree G n + out_degree G n"

definition prune :: "digraph \<Rightarrow> digraph" where
  "prune G0 =
     (let threshold = max HUB_DEGREE_LIMIT (length (nodes G0) div 10);
          hubs = filter (\<lambda>n. degree G0 n > threshold) (nodes G0);
          G1 = remove_nodes_from hubs G0;
          leaves = filter (\<lambda>n. in_degree G1 n = 0 \<or> out_degree G1 n = 0) (nodes G1)
      in remove_nodes_from leaves G1)"

text \<open>
  The two graph-library calls of \<^verbatim>\<open>detect_cycles\<close> are parameters:
  \<^verbatim>\<open>nx.strongly_connected_components(G)\<close> and
  \<^verbatim>\<open>nx.simple_cycles(sub, length_bound=MAX_CYCLE_LEN)\<close>.
\<close>

type_synonym scc_fn = "digraph \<Rightarrow> account list list"

type_synonym cycles_fn = "digraph \<Rightarrow> nat \<Rightarrow> account list list"

text \<open>
  \<^verbatim>\<open>detect_cycles\<close> (lines 216-234): the inner loop over the cycles of one component,
  the outer loop over the components, with the state \<^verbatim>\<open>(seen, cycles)\<close>.
\<close>

fun collect_cycles :: "account list list \<Rightarrow> account list set \<times> account list list \<Rightarrow>
    py_error + (account list set \<times> account list list)" where
  "collect_cycles [] st = Inr st"
| "collect_cycles (cycle # rest) (seen, cycles) =
     (if MIN_CYCLE_LEN \<le> length cycle \<and> length cycle \<le> MAX_CYCLE_LEN then
        (case normalize_cycle cycle of
           Inl e \<Rightarrow> Inl e
         | Inr nrm \<Rightarrow>
             if nrm \<notin> seen then collect_cycles rest (insert nrm seen, cycles @ [nrm])
             else collect_cycles rest (seen, cycles))
      else collect_cycles rest (seen, cycles))"

fun scan_sccs :: "cycles_fn \<Rightarrow> digraph \<Rightarrow> account list list \<Rightarrow> account list set \<times> account list list \<Rightarrow>
    py_error + (account list set \<times> account list list)" where
  "scan_sccs simple_cycles G [] st = Inr st"
| "scan_sccs simple_cycles G (scc # rest) st =
     (if length scc < MIN_CYCLE_LEN then scan_sccs simple_cycles G rest st
      else
        (let sub = subgraph G scc in
         case collect_cycles (simple_cycles sub MAX_CYCLE_LEN) st of
           Inl e \<Rightarrow> Inl e
         | Inr st' \<Rightarrow> scan_sccs simple_cycles G rest st'))"

definition detect_cycles :: "scc_fn \<Rightarrow> cycles_fn \<Rightarrow> circular_state \<Rightarrow> py_error + account list list" where
  "detect_cycles strongly_connected_components simple_cycles st =
     (let G = prune (structure_of st) in
      case scan_sccs simple_cycles G (strongly_connected_components G) ({}, []) of
        Inl e \<Rightarrow> Inl e
      | Inr (seen, cycles) \<Rightarrow> Inr cycles)"

text \<open>
  \<^verbatim>\<open>list(zip(cycle, cycle[1:] + [cycle[0]]))\<close>, used for a non-empty cycle.
\<close>

definition cycle_edges :: "account list \<Rightarrow> edge list" where
  "cycle_edges cycle = zip cycle (tl cycle @ [hd cycle])"

text \<open>
  The five sub-scores of \<^verbatim>\<open>CRSScorer\<close> (lines 101-156). A missing edge is a KeyError
  of \<^verbatim>\<open>self.graph[u][v]\<close>; \<^verbatim>\<open>statistics.stdev\<close> is the sample standard deviation;
  \<^verbatim>\<open>self.edge_meta\<close> is a defaultdict, so a missing key reads as the empty list.
\<close>

definition length_score :: "account list \<Rightarrow> real" where
  "length_score cycle =
     clamp01 ((real MAX_CYCLE_LEN - real (length cycle) + 1) /
              (real MAX_CYCLE_LEN - real MIN_CYCLE_LEN + 1))"

fun edge_averages :: "(edge \<times> edge_data) list \<Rightarrow> edge list \<Rightarrow> py_error + real list" where
  "edge_averages g [] = Inr []"
| "edge_averages g (e # es) =
     (case map_of g e of
        None \<Rightarrow> Inl KeyError
      | Some data \<Rightarrow>
          if weight data = 0 then Inl ZeroDivisionError
          else (case edge_averages g es of
                  Inl err \<Rightarrow> Inl err
                | Inr amounts \<Rightarrow> Inr (total_amount data / real (weight data) # amounts)))"

definition stdev :: "real list \<Rightarrow> real" where
  "stdev xs =
     (let mean = sum_list xs / real (length xs)
      in sqrt (sum_list (map (\<lambda>x. (x - mean)\<^sup>2) xs) / real (length xs - 1)))"

definition amount_similarity_score :: "(edge \<times> edge_data) list \<Rightarrow> edge list \<Rightarrow> py_error + real" where
  "amount_similarity_score g es =
     (case edge_averages g es of
        Inl err \<Rightarrow> Inl err
      | Inr amounts \<Rightarrow>
          if amounts = [] then Inr 0
          else (let mean = sum_list amounts / real (length amounts) in
                if mean = 0 then Inr 0
                else if length amounts = 1 then Inr 1
                else Inr (clamp01 (1 - stdev amounts / mean))))"

definition edge_timestamps :: "(edge \<times> edge_meta_entry list) list \<Rightarrow> edge list \<Rightarrow> int list" where
  "edge_timestamps em es =
     concat (map (\<lambda>e. List.map_filter meta_timestamp
                        (case map_of em e of None \<Rightarrow> [] | Some metas \<Rightarrow> metas)) es)"

definition time_score :: "(edge \<times> edge_meta_entry list) list \<Rightarrow> edge list \<Rightarrow> real" where
  "time_score em es =
     (let timestamps = edge_timestamps em es in
      if length timestamps < 2 then 1 / 2
      else (let duration = real_of_int (Max (set timestamps) - Min (set timestamps))
            in clamp01 (1 - duration / MAX_ALLOWED_DURATION)))"

text \<open>
  \<^verbatim>\<open>cycle_occurrences\<close> maps a canonical cycle to a list with one entry (the current
  time, never read) per occurrence.
\<close>

type_synonym occurrences = "(account list \<times> unit list) list"

definition frequency_score :: "account list \<Rightarrow> occurrences \<Rightarrow> py_error + real" where
  "frequency_score cycle cycle_occurrences =
     (case normalize_cycle cycle of
        Inl e \<Rightarrow> Inl e
      | Inr nrm \<Rightarrow>
          (let count = length (case map_of cycle_occurrences nrm of None \<Rightarrow> [] | Some l \<Rightarrow> l)
           in Inr (clamp01 (min (real count / 3) 1))))"

fun edge_amounts :: "(edge \<times> edge_data) list \<Rightarrow> edge list \<Rightarrow> py_error + real" where
  "edge_amounts g [] = Inr 0"
| "edge_amounts g (e # es) =
     (case map_of g e of
        None \<Rightarrow> Inl KeyError
      | Some data \<Rightarrow>
          (case edge_amounts g es of Inl err \<Rightarrow> Inl err | Inr v \<Rightarrow> Inr (total_amount data + v)))"

definition out_edges :: "(edge \<times> edge_data) list \<Rightarrow> account \<Rightarrow> edge list" where
  "out_edges g u = filter (\<lambda>e. fst e = u) (map fst g)"

definition volume_score :: "(edge \<times> edge_data) list \<Rightarrow> account list \<Rightarrow> edge list \<Rightarrow> py_error + real" where
  "volume_score g cycle es =
     (case edge_amounts g es of
        Inl err \<Rightarrow> Inl err
      | Inr cycle_volume \<Rightarrow>
          (case edge_amounts g (concat (map (out_edges g) cycle)) of
             Inl err \<Rightarrow> Inl err
           | Inr total_outgoing \<Rightarrow>
               if total_outgoing = 0 then Inr 0
               else Inr (clamp01 (cycle_volume / total_outgoing))))"

text \<open>
  \<^verbatim>\<open>round(x, 2)\<close> on a real: to the nearest hundredth, a tie to the even one.
\<close>

definition py_round2 :: "real \<Rightarrow> real" where
  "py_round2 x =
     (let y = x * 100; f = \<lfloor>y\<rfloor>; d = y - of_int f
      in (if d < 1 / 2 then of_int f
          else if d > 1 / 2 then of_int (f + 1)
          else if even f then of_int f else of_int (f + 1)) / 100)"

text \<open>
  \<^verbatim>\<open>CRSScorer.compute\<close> (lines 158-169). \<^verbatim>\<open>cycle[0]\<close> raises IndexError on an empty
  cycle; the sub-scores are evaluated from left to right.
\<close>

definition compute :: "circular_state \<Rightarrow> account list \<Rightarrow> occurrences \<Rightarrow> py_error + real" where
  "compute st cycle cycle_occurrences =
     (if cycle = [] then Inl IndexError
      else
        (let es = cycle_edges cycle in
         case amount_similarity_score (graph_edges st) es of
           Inl err \<Rightarrow> Inl err
         | Inr a \<Rightarrow>
             (case frequency_score cycle cycle_occurrences of
                Inl err \<Rightarrow> Inl err
              | Inr f \<Rightarrow>
                  (case volume_score (graph_edges st) cycle es of
                     Inl err \<Rightarrow> Inl err
                   | Inr v \<Rightarrow>
                       (let raw = W_LENGTH * length_score cycle + W_AMOUNT * a +
                                  W_TIME * time_score (edge_meta st) es +
                                  W_FREQUENCY * f + W_VOLUME * v
                        in Inr (py_round2 (clamp01 raw * 100)))))))"

text \<open>
  \<^verbatim>\<open>get_cycle_completion_time\<close> (lines 236-248).
\<close>

definition get_cycle_completion_time :: "circular_state \<Rightarrow> account list \<Rightarrow> py_error + int option" where
  "get_cycle_completion_time st cycle =
     (if cycle = [] then Inl IndexError
      else (let timestamps = edge_timestamps (edge_meta st) (cycle_edges cycle)
            in if timestamps = [] then Inr None else Inr (Some (Max (set timestamps)))))"

text \<open>
  The loop of \<^verbatim>\<open>run\<close> that fills \<^verbatim>\<open>cycle_occurrences\<close> (lines 255-257).
\<close>

fun build_occurrences :: "account list list \<Rightarrow> occurrences \<Rightarrow> py_error + occurrences" where
  "build_occurrences [] occ = Inr occ"
| "build_occurrences (cycle # rest) occ =
     (case normalize_cycle cycle of
        Inl e \<Rightarrow> Inl e
      | Inr nrm \<Rightarrow> build_occurrences rest (dict_append nrm () occ))"

section \<open>Run of the circular detector and cross-engine aggregation\<close>

text \<open>
  One entry of \<^verbatim>\<open>account_data[acc]\<close>; its key \<^verbatim>\<open>ring_id\<close> is the field
  \<open>entry_ring_id\<close>.
\<close>

record account_entry =
  score :: real
  entry_ring_id :: string
  cycle_length :: nat

text \<open>
  \<^verbatim>\<open>f"RING_{idx:03d}"\<close>: the decimal digits of \<open>idx\<close>, padded with zeros to three.
\<close>

definition digit_char :: "nat \<Rightarrow> char" where
  "digit_char d = char_of (d + 48)"

fun decimal :: "nat \<Rightarrow> string" where
  "decimal n = (if 10 \<le> n then decimal (n div 10) @ [digit_char (n mod 10)] else [digit_char n])"

declare decimal.simps [simp del]

definition format_03d :: "nat \<Rightarrow> string" where
  "format_03d n = (let s = decimal n in replicate (3 - length s) CHR ''0'' @ s)"

text \<open>
  The loop of \<^verbatim>\<open>run\<close> over \<^verbatim>\<open>enumerate(cycles, start=1)\<close> (lines 264-284).
\<close>

fun score_cycles :: "circular_state \<Rightarrow> occurrences \<Rightarrow> nat \<Rightarrow> account list list \<Rightarrow>
    fraud_ring list \<times> (account \<times> account_entry list) list \<Rightarrow>
    py_error + (fraud_ring list \<times> (account \<times> account_entry list) list)" where
  "score_cycles st occ idx [] acc = Inr acc"
| "score_cycles st occ idx (cycle # rest) (rings, account_data) =
     (case compute st cycle occ of
        Inl e \<Rightarrow> Inl e
      | Inr sc \<Rightarrow>
          (let rid = ''RING_'' @ format_03d idx in
           case get_cycle_completion_time st cycle of
             Inl e \<Rightarrow> Inl e
           | Inr completion_time \<Rightarrow>
               score_cycles st occ (Suc idx) rest
                 (rings @ [\<lparr>ring_id = rid, member_accounts = cycle, pattern_type = ''cycle'',
                             risk_score = sc, detected_at = completion_time\<rparr>],
                  fold (\<lambda>acc ad. dict_append acc
                          \<lparr>score = sc, entry_ring_id = rid, cycle_length = length cycle\<rparr> ad)
                       cycle account_data)))"

text \<open>
  The loop of \<^verbatim>\<open>run\<close> over \<^verbatim>\<open>account_data.items()\<close> (lines 288-311) for one account.
  The list of entries of an account is never empty, since it is created by an append.
\<close>

definition entry_patterns :: "account_entry \<Rightarrow> string list" where
  "entry_patterns e =
     (if cycle_length e = 3 then [''cycle_length_3''] else []) @
     (if score e > 85 then [''high_velocity''] else [])"

definition account_record :: "account \<Rightarrow> account_entry list \<Rightarrow> suspicious_account option" where
  "account_record acc entries =
     (let max_score = Max (set (map score entries));
          high_risk_cycles = length (filter (\<lambda>e. score e > HIGH_RISK_THRESHOLD) entries);
          flagged = (max_score > HIGH_RISK_THRESHOLD \<or> high_risk_cycles > HIGH_RISK_CYCLE_COUNT)
      in if flagged
         then Some \<lparr>account_id = acc, suspicion_score = py_round2 max_score,
                     detected_patterns = sort (remdups (concat (map entry_patterns entries))),
                     ring_id = entry_ring_id (hd entries)\<rparr>
         else None)"

text \<open>
  \<^verbatim>\<open>CircularFundRoutingDetector.run\<close> on a fresh detector.
\<close>

definition empty_state :: circular_state where
  "empty_state = \<lparr>graph_nodes = [], graph_edges = [], edge_meta = []\<rparr>"

definition CircularFundRoutingDetector_run ::
    "strptime \<Rightarrow> scc_fn \<Rightarrow> cycles_fn \<Rightarrow> txn list \<Rightarrow> py_error + detector_result" where
  "CircularFundRoutingDetector_run sp strongly_connected_components simple_cycles transactions =
     (let st = build_graph sp transactions empty_state in
      case detect_cycles strongly_connected_components simple_cycles st of
        Inl e \<Rightarrow> Inl e
      | Inr cycles \<Rightarrow>
          (case build_occurrences cycles [] of
             Inl e \<Rightarrow> Inl e
           | Inr cycle_occurrences \<Rightarrow>
               (case score_cycles st cycle_occurrences 1 cycles ([], []) of
                  Inl e \<Rightarrow> Inl e
                | Inr (rings, account_data) \<Rightarrow>
                    Inr \<lparr>suspicious_accounts =
                           List.map_filter (\<lambda>(acc, entries). account_record acc entries) account_data,
                         fraud_rings = rings\<rparr>)))"

text \<open>
  The merge loop of \<^verbatim>\<open>analyze\<close> in server.py (lines 66-78) for one item: a new account
  starts with score 0.0 and an empty set of patterns, then takes the maximum and the
  union. \<^verbatim>\<open>acc_map\<close> is the list of merged records in insertion order; the set of
  patterns is kept as a list until it is sorted.
\<close>

fun merge_item :: "suspicious_account \<Rightarrow> suspicious_account list \<Rightarrow> suspicious_account list" where
  "merge_item item [] =
     [\<lparr>account_id = account_id item, suspicion_score = max 0 (suspicion_score item),
       detected_patterns = detected_patterns item, ring_id = suspicious_account.ring_id item\<rparr>]"
| "merge_item item (m # rest) =
     (if account_id m = account_id item
      then m\<lparr>suspicion_score := max (suspicion_score m) (suspicion_score item),
              detected_patterns := detected_patterns m @ detected_patterns item\<rparr> # rest
      else m # merge_item item rest)"

text \<open>
  \<^verbatim>\<open>list.sort(key=f, reverse=True)\<close>: descending, equal keys in their original order.
\<close>

definition sort_desc :: "('a \<Rightarrow> real) \<Rightarrow> 'a list \<Rightarrow> 'a list" where
  "sort_desc f xs = rev (sort_key f (rev xs))"

text \<open>
  The aggregation of \<^verbatim>\<open>analyze\<close> (lines 57-93), and \<^verbatim>\<open>analyze\<close> from the list of
  transactions on: an exception of an engine fails the request.
\<close>

definition aggregate :: "detector_result \<Rightarrow> detector_result \<Rightarrow> detector_result \<Rightarrow> detector_result" where
  "aggregate circular_results smurfing_results shell_results =
     (let all_suspicious = suspicious_accounts circular_results @
                           suspicious_accounts smurfing_results @
                           suspicious_accounts shell_results;
          acc_map = fold merge_item all_suspicious [];
          accs = map (\<lambda>acc. acc\<lparr>detected_patterns := sort (remdups (detected_patterns acc))\<rparr>) acc_map
      in \<lparr>suspicious_accounts = sort_desc suspicion_score accs,
          fraud_rings = fraud_rings circular_results @ fraud_rings smurfing_results @
                        fraud_rings shell_results\<rparr>)"

definition analyze ::
    "strptime \<Rightarrow> scc_fn \<Rightarrow> cycles_fn \<Rightarrow> wcc_fn \<Rightarrow> paths_fn \<Rightarrow> txn list \<Rightarrow> py_error + detector_result" where
  "analyze sp strongly_connected_components simple_cycles weakly_connected_components
           all_simple_paths transactions =
     (case CircularFundRoutingDetector_run sp strongly_connected_components simple_cycles transactions of
        Inl e \<Rightarrow> Inl e
      | Inr circular_results \<Rightarrow>
          (case SmurfingDetector_run sp transactions of
             Inl e \<Rightarrow> Inl e
           | Inr smurfing_results \<Rightarrow>
               Inr (aggregate circular_results smurfing_results
                      (ShellNetworkDetector_run weakly_connected_components all_simple_paths
                         transactions))))"

text \<open>
  Reference implementations of the two library calls of \<^verbatim>\<open>detect_cycles\<close>, used
  where a statement is instantiated on a concrete batch: the component of a node is made
  of the nodes that it reaches and that reach it; a simple cycle is listed once, from its
  smallest node.
\<close>

fun reach :: "nat \<Rightarrow> digraph \<Rightarrow> account list \<Rightarrow> account list" where
  "reach 0 G c = c"
| "reach (Suc n) G c =
     reach n G (remdups (c @ filter (\<lambda>w. \<exists>u\<in>set c. (u, w) \<in> set (edges G)) (nodes G)))"

definition scc_of :: "digraph \<Rightarrow> account \<Rightarrow> account list" where
  "scc_of G v =
     filter (\<lambda>w. v \<in> set (reach (length (nodes G)) G [w])) (reach (length (nodes G)) G [v])"

fun sccs :: "nat \<Rightarrow> digraph \<Rightarrow> account list \<Rightarrow> account list list" where
  "sccs 0 G todo = []"
| "sccs (Suc n) G [] = []"
| "sccs (Suc n) G (v # todo) =
     (let c = scc_of G v in c # sccs n G (filter (\<lambda>u. u \<notin> set c) todo))"

definition ref_strongly_connected_components :: scc_fn where
  "ref_strongly_connected_components G = sccs (length (nodes G)) G (nodes G)"

definition ref_simple_cycles :: cycles_fn where
  "ref_simple_cycles G length_bound =
     concat (map (\<lambda>v. filter (\<lambda>p. length p \<le> length_bound \<and> (last p, v) \<in> set (edges G) \<and>
                                   list_all (\<lambda>w. v \<le> w) p)
                         ([v] # extend_paths (length (nodes G)) G [v]))
                 (nodes G))"

text \<open>
  An enumeration that yields every simple cycle once from each of its nodes, that is,
  all its rotations: the order and the starting node of the cycles that the library
  yields are not fixed.
\<close>

definition all_starts_simple_cycles :: cycles_fn where
  "all_starts_simple_cycles G length_bound =
     concat (map (\<lambda>v. filter (\<lambda>p. length p \<le> length_bound \<and> (last p, v) \<in> set (edges G))
                         ([v] # extend_paths (length (nodes G)) G [v]))
                 (nodes G))"

text \<open>
  Scenario A of the specification: A to B to C to A, 100 each, at 10:00, 11:00 and 12:00.
\<close>

definition cyc_txn :: "string \<Rightarrow> string \<Rightarrow> string \<Rightarrow> txn" where
  "cyc_txn s r t = \<lparr>sender_id = Some s, receiver_id = Some r, amount = AmountNumber 100,
                   timestamp = Some t\<rparr>"

definition clock_strptime :: strptime where
  "clock_strptime s fmt =
     (if fmt \<noteq> ''%Y-%m-%d %H:%M:%S'' then None
      else if s = ''2023-01-01 10:00:00'' then Some 36000
      else if s = ''2023-01-01 11:00:00'' then Some 39600
      else if s = ''2023-01-01 12:00:00'' then Some 43200
      else None)"

definition cycle_batch :: "txn list" where
  "cycle_batch = [cyc_txn ''A'' ''B'' ''2023-01-01 10:00:00'',
                  cyc_txn ''B'' ''C'' ''2023-01-01 11:00:00'',
                  cyc_txn ''C'' ''A'' ''2023-01-01 12:00:00'']"

text \<open>
  The ring of scenario A transacted three times: one round at 10:00, one at 11:00 and
  one at 12:00.
\<close>

definition recurring_batch :: "txn list" where
  "recurring_batch =
     concat (map (\<lambda>t. [cyc_txn ''A'' ''B'' t, cyc_txn ''B'' ''C'' t, cyc_txn ''C'' ''A'' t])
       [''2023-01-01 10:00:00'', ''2023-01-01 11:00:00'', ''2023-01-01 12:00:00''])"

text \<open>
  Two rings that share the edge from A to B, entered at B: B to C to A to B, and
  B to D to A to B.
\<close>

definition two_ring_batch :: "txn list" where
  "two_ring_batch = [cyc_txn ''B'' ''C'' ''2023-01-01 10:00:00'',
                     cyc_txn ''C'' ''A'' ''2023-01-01 11:00:00'',
                     cyc_txn ''A'' ''B'' ''2023-01-01 12:00:00'',
                     cyc_txn ''B'' ''D'' ''2023-01-01 10:00:00'',
                     cyc_txn ''D'' ''A'' ''2023-01-01 11:00:00'']"

section \<open>Notions used in the statements, and example batches\<close>

definition window72 :: "fan_entry list \<Rightarrow> nat \<Rightarrow> fan_entry list" where
  "window72 txns i = filter (\<lambda>e. ts (txns ! i) - ts e \<le> TIME_WINDOW_SECONDS) (take (Suc i) txns)"

definition parties_in :: "fan_entry list \<Rightarrow> nat \<Rightarrow> account list" where
  "parties_in txns i = remdups (map party (window72 txns i))"

definition lookup :: "('k \<times> 'v list) list \<Rightarrow> 'k \<Rightarrow> 'v list" where
  "lookup d k = (case map_of d k of None \<Rightarrow> [] | Some vs \<Rightarrow> vs)"

definition fan_valid :: "strptime \<Rightarrow> txn \<Rightarrow> bool" where
  "fan_valid sp t \<longleftrightarrow> truthy (sender_id t) \<and> truthy (receiver_id t) \<and> parse_ts sp (timestamp t) \<noteq> None"

definition in_entry :: "strptime \<Rightarrow> txn \<Rightarrow> fan_entry" where
  "in_entry sp t = \<lparr>party = the (sender_id t), ts = the (parse_ts sp (timestamp t)), fan_amount = safe_float (amount t)\<rparr>"

definition out_entry :: "strptime \<Rightarrow> txn \<Rightarrow> fan_entry" where
  "out_entry sp t = \<lparr>party = the (receiver_id t), ts = the (parse_ts sp (timestamp t)), fan_amount = safe_float (amount t)\<rparr>"

definition fan_in_entries :: "strptime \<Rightarrow> txn list \<Rightarrow> account \<Rightarrow> fan_entry list" where
  "fan_in_entries sp txns acc =
     map (in_entry sp) (filter (\<lambda>t. fan_valid sp t \<and> receiver_id t = Some acc) txns)"

definition fan_out_entries :: "strptime \<Rightarrow> txn list \<Rightarrow> account \<Rightarrow> fan_entry list" where
  "fan_out_entries sp txns acc =
     map (out_entry sp) (filter (\<lambda>t. fan_valid sp t \<and> sender_id t = Some acc) txns)"

definition fan_in_rings_of :: "detector_result \<Rightarrow> account \<Rightarrow> fraud_ring list" where
  "fan_in_rings_of res acc =
     filter (\<lambda>r. fraud_ring.ring_id r = ''SMURF_IN_'' @ acc) (fraud_rings res)"

definition fan_in_flags_of :: "detector_result \<Rightarrow> account \<Rightarrow> suspicious_account list" where
  "fan_in_flags_of res acc =
     filter (\<lambda>a. account_id a = acc \<and> detected_patterns a = [''fan_in'']) (suspicious_accounts res)"

definition fan_out_rings_of :: "detector_result \<Rightarrow> account \<Rightarrow> fraud_ring list" where
  "fan_out_rings_of res acc =
     filter (\<lambda>r. fraud_ring.ring_id r = ''SMURF_OUT_'' @ acc) (fraud_rings res)"

definition fan_out_flags_of :: "detector_result \<Rightarrow> account \<Rightarrow> suspicious_account list" where
  "fan_out_flags_of res acc =
     filter (\<lambda>a. account_id a = acc \<and> detected_patterns a = [''fan_out'']) (suspicious_accounts res)"

definition fan_in_sorted :: "strptime \<Rightarrow> txn list \<Rightarrow> account \<Rightarrow> fan_entry list" where
  "fan_in_sorted sp txns acc = sort_key ts (fan_in_entries sp txns acc)"

definition fan_out_sorted :: "strptime \<Rightarrow> txn list \<Rightarrow> account \<Rightarrow> fan_entry list" where
  "fan_out_sorted sp txns acc = sort_key ts (fan_out_entries sp txns acc)"

definition example_strptime :: strptime where
  "example_strptime s fmt =
     (if fmt = ''%Y-%m-%d %H:%M:%S'' \<and> s = ''2023-01-01 10:00:00'' then Some 36000 else None)"

definition fan_txn :: "string \<Rightarrow> string \<Rightarrow> txn" where
  "fan_txn s r = \<lparr>sender_id = Some s, receiver_id = Some r, amount = AmountNumber 10,
                  timestamp = Some ''2023-01-01 10:00:00''\<rparr>"

definition user_ids :: "string list" where
  "user_ids = [''User_0'', ''User_1'', ''User_2'', ''User_3'', ''User_4'',
               ''User_5'', ''User_6'', ''User_7'', ''User_8'', ''User_9'']"

definition fan_batch :: "txn list" where
  "fan_batch = map (\<lambda>u. fan_txn u ''Aggregator'') user_ids @
               map (\<lambda>u. fan_txn ''Aggregator'' u) user_ids"

definition null_ts_batch :: "txn list" where
  "null_ts_batch =
     map (\<lambda>u. \<lparr>sender_id = Some u, receiver_id = Some ''Aggregator'', amount = AmountNumber 10,
                timestamp = None\<rparr>) (take 5 user_ids) @
     map (\<lambda>u. \<lparr>sender_id = Some u, receiver_id = Some ''Aggregator'', amount = AmountNumber 10,
                timestamp = Some ''yesterday''\<rparr>) (drop 5 user_ids)"

definition bad_amount_batch :: "txn list" where
  "bad_amount_batch =
     [fan_txn ''A'' ''B'', (fan_txn ''B'' ''C'')\<lparr>amount := AmountUnparseable\<rparr>, fan_txn ''C'' ''A'']"

definition count_of :: "('k \<times> nat) list \<Rightarrow> 'k \<Rightarrow> nat" where
  "count_of d k = (case map_of d k of None \<Rightarrow> 0 | Some c \<Rightarrow> c)"

definition txn_count :: "txn list \<Rightarrow> account \<Rightarrow> nat" where
  "txn_count txns n =
     length (filter (\<lambda>t. truthy (sender_id t) \<and> truthy (receiver_id t) \<and> sender_id t = Some n) txns) +
     length (filter (\<lambda>t. truthy (sender_id t) \<and> truthy (receiver_id t) \<and> receiver_id t = Some n) txns)"

definition shell_inv :: "shell_state \<Rightarrow> bool" where
  "shell_inv st \<longleftrightarrow>
     distinct (map account_id (sh_suspicious st)) \<and>
     detected_shells st = account_id ` set (sh_suspicious st) \<and>
     (\<forall>a\<in>set (sh_suspicious st). suspicion_score a = 75 \<and> detected_patterns a = [''shell_account''])"

definition ring_ok :: "account set \<Rightarrow> fraud_ring \<Rightarrow> bool" where
  "ring_ok S r \<longleftrightarrow> risk_score r = 75 \<and> detected_at r = None \<and> pattern_type r = ''shell_network'' \<and>
     2 \<le> length (member_accounts r) \<and> set (member_accounts r) \<subseteq> S"

definition components_within :: "wcc_fn \<Rightarrow> bool" where
  "components_within wcc \<longleftrightarrow> (\<forall>G. \<forall>c\<in>set (wcc G). set c \<subseteq> set (nodes G))"

definition paths_within :: "paths_fn \<Rightarrow> bool" where
  "paths_within asp \<longleftrightarrow>
     (\<forall>G s t. s \<in> set (nodes G) \<longrightarrow> (\<forall>p\<in>set (asp G s t). set p \<subseteq> set (nodes G)))"

definition qualifying :: "account list \<Rightarrow> bool" where
  "qualifying c \<longleftrightarrow> MIN_CYCLE_LEN \<le> length c \<and> length c \<le> MAX_CYCLE_LEN"

definition canonical_form :: "account list \<Rightarrow> account list" where
  "canonical_form c = (case normalize_cycle c of Inl e \<Rightarrow> [] | Inr n \<Rightarrow> n)"

fun first_occurrences :: "'a list \<Rightarrow> 'a list" where
  "first_occurrences [] = []"
| "first_occurrences (x # xs) = x # first_occurrences (filter (\<lambda>y. y \<noteq> x) xs)"

definition add_new :: "'a list \<Rightarrow> 'a list \<Rightarrow> 'a list" where
  "add_new xs cs = fold (\<lambda>n cs. if n \<in> set cs then cs else cs @ [n]) xs cs"

definition raw_cycles :: "scc_fn \<Rightarrow> cycles_fn \<Rightarrow> digraph \<Rightarrow> account list list" where
  "raw_cycles strongly_connected_components simple_cycles G =
     concat (map (\<lambda>scc. simple_cycles (subgraph G scc) MAX_CYCLE_LEN)
                 (filter (\<lambda>scc. \<not> length scc < MIN_CYCLE_LEN) (strongly_connected_components G)))"

definition cycles_simple :: "cycles_fn \<Rightarrow> bool" where
  "cycles_simple simple_cycles \<longleftrightarrow> (\<forall>G b. \<forall>c\<in>set (simple_cycles G b). distinct c)"

text \<open>
  The rotations \<^verbatim>\<open>c[k:] + c[:k]\<close> of a list, and the relation of two lists that
  describe one ring: the second is a rotation of the first.
\<close>

definition rotations :: "'a list \<Rightarrow> 'a list list" where
  "rotations c = map (\<lambda>k. rotate k c) [0..<length c]"

definition same_ring :: "'a list \<Rightarrow> 'a list \<Rightarrow> bool" where
  "same_ring c d \<longleftrightarrow> d \<in> set (rotations c)"

text \<open>
  The first discovery of every ring of a list of cycles, in the order of the list: a
  cycle is dropped when it is a rotation of a cycle kept before it.
\<close>

fun first_discoveries :: "'a list list \<Rightarrow> 'a list list" where
  "first_discoveries [] = []"
| "first_discoveries (c # cs) = c # first_discoveries (filter (\<lambda>d. \<not> same_ring c d) cs)"

definition occurrence_count :: "account list list \<Rightarrow> account list \<Rightarrow> nat" where
  "occurrence_count cycles c = length (filter (\<lambda>d. normalize_cycle d = normalize_cycle c) cycles)"

definition scores_in_range :: "detector_result \<Rightarrow> bool" where
  "scores_in_range res \<longleftrightarrow>
     (\<forall>a\<in>set (suspicious_accounts res). 0 \<le> suspicion_score a \<and> suspicion_score a \<le> 100) \<and>
     (\<forall>r\<in>set (fraud_rings res). 0 \<le> risk_score r \<and> risk_score r \<le> 100)"

definition entries_ok :: "(account \<times> account_entry list) list \<Rightarrow> bool" where
  "entries_ok ad \<longleftrightarrow>
     (\<forall>k es. (k, es) \<in> set ad \<longrightarrow> es \<noteq> [] \<and> (\<forall>e\<in>set es. 0 \<le> score e \<and> score e \<le> 100))"

definition find_acc :: "suspicious_account list \<Rightarrow> account \<Rightarrow> suspicious_account option" where
  "find_acc M a = List.find (\<lambda>m. account_id m = a) M"

definition merge_one :: "suspicious_account option \<Rightarrow> suspicious_account \<Rightarrow> suspicious_account" where
  "merge_one prev item =
     (case prev of
        None \<Rightarrow> \<lparr>account_id = account_id item, suspicion_score = max 0 (suspicion_score item),
                  detected_patterns = detected_patterns item, ring_id = suspicious_account.ring_id item\<rparr>
      | Some m \<Rightarrow> m\<lparr>suspicion_score := max (suspicion_score m) (suspicion_score item),
                     detected_patterns := detected_patterns m @ detected_patterns item\<rparr>)"

definition items_of :: "suspicious_account list \<Rightarrow> account \<Rightarrow> suspicious_account list" where
  "items_of items a = filter (\<lambda>i. account_id i = a) items"

definition finalize :: "suspicious_account \<Rightarrow> suspicious_account" where
  "finalize acc = acc\<lparr>detected_patterns := sort (remdups (detected_patterns acc))\<rparr>"

definition all_suspicious :: "detector_result \<Rightarrow> detector_result \<Rightarrow> detector_result \<Rightarrow> suspicious_account list" where
  "all_suspicious c s h = suspicious_accounts c @ suspicious_accounts s @ suspicious_accounts h"

definition cycle_state :: circular_state where
  "cycle_state = build_graph clock_strptime cycle_batch empty_state"

definition cycle_ring :: fraud_ring where
  "cycle_ring = \<lparr>ring_id = ''RING_001'', member_accounts = [''A'', ''B'', ''C''],
                  pattern_type = ''cycle'', risk_score = 8643 / 100, detected_at = Some 43200\<rparr>"

definition cycle_account :: "account \<Rightarrow> suspicious_account" where
  "cycle_account acc = \<lparr>account_id = acc, suspicion_score = 8643 / 100,
                         detected_patterns = [''cycle_length_3'', ''high_velocity''],
                         ring_id = ''RING_001''\<rparr>"

definition merge_circular :: detector_result where
  "merge_circular =
     \<lparr>suspicious_accounts =
        [\<lparr>account_id = ''X'', suspicion_score = 70, detected_patterns = [''cycle_length_3''],
          ring_id = ''RING_001''\<rparr>],
      fraud_rings =
        [\<lparr>ring_id = ''RING_001'', member_accounts = [''X'', ''Y'', ''Z''], pattern_type = ''cycle'',
          risk_score = 70, detected_at = None\<rparr>]\<rparr>"

definition merge_smurfing :: detector_result where
  "merge_smurfing =
     \<lparr>suspicious_accounts =
        [\<lparr>account_id = ''X'', suspicion_score = 85, detected_patterns = [''fan_in''],
          ring_id = ''SMURF_IN_X''\<rparr>],
      fraud_rings =
        [\<lparr>ring_id = ''SMURF_IN_X'', member_accounts = [''Y'', ''X''], pattern_type = ''fan_in'',
          risk_score = 85, detected_at = None\<rparr>]\<rparr>"

definition merge_shell :: detector_result where
  "merge_shell = \<lparr>suspicious_accounts = [], fraud_rings = []\<rparr>"

definition shell_pair :: "txn list" where
  "shell_pair = [sh_txn ''X'' ''S1'', sh_txn ''S1'' ''S2'']"

definition nine_senders :: "txn list" where
  "nine_senders = map (\<lambda>u. fan_txn u ''Aggregator'') (take 9 user_ids)"

definition has_ids :: "txn \<Rightarrow> bool" where
  "has_ids t \<longleftrightarrow> truthy (sender_id t) \<and> truthy (receiver_id t)"

section \<open>Canonical form of a cycle\<close>

lemma list_index_mem:
  "x \<in> set xs \<Longrightarrow> list_index xs x = Inr (length (takeWhile (\<lambda>y. y \<noteq> x) xs))"
proof (induction xs)
  case Nil
  then show ?case by simp
next
  case (Cons a xs)
  show ?case
  proof (cases "a = x")
    case True
    then show ?thesis by simp
  next
    case False
    with Cons.prems have "x \<in> set xs" by simp
    from Cons.IH [OF this] False show ?thesis by simp
  qed
qed

lemma normalize_cycle_split:
  assumes "cycle \<noteq> []"
  shows "normalize_cycle cycle =
         Inr (dropWhile (\<lambda>y. y \<noteq> Min (set cycle)) cycle @ takeWhile (\<lambda>y. y \<noteq> Min (set cycle)) cycle)"
proof -
  have m: "Min (set cycle) \<in> set cycle"
    using assms by (intro Min_in) auto
  show ?thesis
    using assms list_index_mem [OF m]
    by (simp add: normalize_cycle_def flip: dropWhile_eq_drop takeWhile_eq_take)
qed

lemma normalize_cycle_set:
  assumes "normalize_cycle cycle = Inr n" shows "set n = set cycle"
proof (cases "cycle = []")
  case True
  with assms show ?thesis by (simp add: normalize_cycle_def)
next
  case False
  let ?P = "\<lambda>y. y \<noteq> Min (set cycle)"
  from assms normalize_cycle_split [OF False]
  have "n = dropWhile ?P cycle @ takeWhile ?P cycle" by simp
  then have "set n = set (takeWhile ?P cycle @ dropWhile ?P cycle)"
    by (simp only: set_append Un_commute)
  then show ?thesis by (simp only: takeWhile_dropWhile_id)
qed

lemma normalize_cycle_idem:
  assumes "normalize_cycle cycle = Inr n" shows "normalize_cycle n = Inr n"
proof (cases "cycle = []")
  case True
  with assms show ?thesis by (simp add: normalize_cycle_def)
next
  case False
  let ?m = "Min (set cycle)"
  let ?P = "\<lambda>y. y \<noteq> ?m"
  have m: "?m \<in> set cycle" using False by (intro Min_in) auto
  from assms normalize_cycle_split [OF False]
  have n: "n = dropWhile ?P cycle @ takeWhile ?P cycle" by simp
  from m have "dropWhile ?P cycle \<noteq> []" by (simp add: dropWhile_eq_Nil_conv)
  then obtain d ds where d: "dropWhile ?P cycle = d # ds" by (cases "dropWhile ?P cycle") auto
  then have "\<not> ?P d" using hd_dropWhile [of ?P cycle] by (metis list.sel(1) list.distinct(1))
  then have dm: "d = ?m" by simp
  have sn: "set n = set cycle" by (rule normalize_cycle_set [OF assms])
  have nn: "n = ?m # (ds @ takeWhile ?P cycle)" using n d dm by simp
  then have "n \<noteq> []" by simp
  moreover have "list_index n (Min (set n)) = Inr 0"
    using sn nn by (metis list_index.simps(2))
  ultimately show ?thesis by (simp add: normalize_cycle_def)
qed

lemma normalize_cycle_rotate1:
  assumes "distinct cycle" "cycle \<noteq> []"
  shows "normalize_cycle (rotate1 cycle) = normalize_cycle cycle"
proof -
  obtain x xs where c: "cycle = x # xs" using assms(2) by (cases cycle) auto
  let ?m = "Min (set cycle)"
  let ?P = "\<lambda>y. y \<noteq> ?m"
  have m: "?m \<in> set cycle" using assms(2) by (intro Min_in) auto
  have r: "rotate1 cycle = xs @ [x]" using c by simp
  have sr: "Min (set (xs @ [x])) = ?m" using c by (simp add: insert_commute)
  have lhs: "normalize_cycle (rotate1 cycle) =
        Inr (dropWhile ?P (xs @ [x]) @ takeWhile ?P (xs @ [x]))"
    using normalize_cycle_split [of "xs @ [x]"] unfolding sr r by simp
  have rhs: "normalize_cycle cycle = Inr (dropWhile ?P (x # xs) @ takeWhile ?P (x # xs))"
    using normalize_cycle_split [OF assms(2)] c by simp
  show ?thesis
  proof (cases "x = ?m")
    case True
    then have "?m \<notin> set xs" using assms(1) c by auto
    then have "\<forall>y\<in>set xs. ?P y" by auto
    then have "dropWhile ?P (xs @ [x]) = [x]" "takeWhile ?P (xs @ [x]) = xs"
      using True by (simp_all add: dropWhile_append2 takeWhile_append2)
    with True lhs rhs show ?thesis by simp
  next
    case False
    then have mx: "?m \<in> set xs" using m c by auto
    then have "\<exists>y\<in>set xs. \<not> ?P y" by auto
    then have "dropWhile ?P (xs @ [x]) = dropWhile ?P xs @ [x]"
      "takeWhile ?P (xs @ [x]) = takeWhile ?P xs"
      by (simp_all add: dropWhile_append1 takeWhile_append1)
    with False lhs rhs show ?thesis by simp
  qed
qed

lemma normalize_cycle_rotate:
  assumes "distinct cycle" "cycle \<noteq> []"
  shows "normalize_cycle (rotate k cycle) = normalize_cycle cycle"
proof (induction k)
  case 0
  show ?case by simp
next
  case (Suc k)
  have "normalize_cycle (rotate1 (rotate k cycle)) = normalize_cycle (rotate k cycle)"
    using assms by (intro normalize_cycle_rotate1) simp_all
  with Suc show ?case by simp
qed

text \<open>
  Claim C9. For every non-empty list of distinct account ids, canonicalization succeeds
  and is idempotent (canonicalizing the canonical form returns it unchanged), and every
  rotation \<^verbatim>\<open>cycle[k:] + cycle[:k]\<close> of the list has the same canonical form.
\<close>

theorem normalize_cycle_canonical:
  assumes "cycle \<noteq> []" and "distinct cycle"
  shows "(\<exists>n. normalize_cycle cycle = Inr n \<and> normalize_cycle n = Inr n) \<and>
         normalize_cycle (rotate k cycle) = normalize_cycle cycle"
proof -
  obtain n where n: "normalize_cycle cycle = Inr n"
    using normalize_cycle_split [OF assms(1)] by blast
  from normalize_cycle_idem [OF n] n normalize_cycle_rotate [OF assms(2) assms(1)]
  show ?thesis by blast
qed

theorem normalize_cycle_canonical_witness:
  "[''B'', ''C'', ''A''] \<noteq> [] \<and> distinct [''B'', ''C'', ''A''] \<and>
   (\<exists>n. normalize_cycle [''B'', ''C'', ''A''] = Inr n \<and> normalize_cycle n = Inr n) \<and>
   normalize_cycle (rotate 2 [''B'', ''C'', ''A'']) = normalize_cycle [''B'', ''C'', ''A'']"
  using normalize_cycle_canonical [of "[''B'', ''C'', ''A'']" 2] by simp

section \<open>The sliding window of the fan detector\<close>

lemma advance_bounds:
  "start_idx \<le> i \<Longrightarrow> start_idx \<le> advance txns start_idx i \<and> advance txns start_idx i \<le> i"
proof (induction txns start_idx i rule: advance.induct)
  case (1 txns start_idx i)
  show ?case
  proof (cases "start_idx < i \<and> ts (txns ! i) - ts (txns ! start_idx) > TIME_WINDOW_SECONDS")
    case True
    then have eq: "advance txns start_idx i = advance txns (Suc start_idx) i"
      by (subst advance.simps) simp
    from True have "Suc start_idx \<le> i" by simp
    from "1.IH" [OF True this] eq show ?thesis by simp
  next
    case False
    then have "advance txns start_idx i = start_idx"
      by (subst advance.simps) auto
    with "1.prems" show ?thesis by simp
  qed
qed

lemma advance_spec:
  assumes "start_idx \<le> i"
    and "\<forall>j<start_idx. ts (txns ! i) - ts (txns ! j) > TIME_WINDOW_SECONDS"
  shows "(\<forall>j<advance txns start_idx i. ts (txns ! i) - ts (txns ! j) > TIME_WINDOW_SECONDS) \<and>
         ts (txns ! i) - ts (txns ! advance txns start_idx i) \<le> TIME_WINDOW_SECONDS"
  using assms
proof (induction txns start_idx i rule: advance.induct)
  case (1 txns start_idx i)
  show ?case
  proof (cases "start_idx < i \<and> ts (txns ! i) - ts (txns ! start_idx) > TIME_WINDOW_SECONDS")
    case True
    then have eq: "advance txns start_idx i = advance txns (Suc start_idx) i"
      by (subst advance.simps) simp
    from True have le: "Suc start_idx \<le> i" by simp
    have "\<forall>j<Suc start_idx. ts (txns ! i) - ts (txns ! j) > TIME_WINDOW_SECONDS"
      using "1.prems"(2) True by (auto simp: less_Suc_eq)
    from "1.IH" [OF True le this] eq show ?thesis by simp
  next
    case False
    then have eq: "advance txns start_idx i = start_idx"
      by (subst advance.simps) auto
    have "ts (txns ! i) - ts (txns ! start_idx) \<le> TIME_WINDOW_SECONDS"
    proof (cases "start_idx < i")
      case True
      with False show ?thesis by simp
    next
      case False
      with "1.prems"(1) have "start_idx = i" by simp
      then show ?thesis by (simp add: TIME_WINDOW_SECONDS_def)
    qed
    with eq "1.prems"(2) show ?thesis by simp
  qed
qed

lemma window_eq:
  assumes srt: "sorted (map ts txns)" and i: "i < length txns" and s: "s \<le> i"
    and before: "\<forall>j<s. ts (txns ! i) - ts (txns ! j) > TIME_WINDOW_SECONDS"
    and at: "ts (txns ! i) - ts (txns ! s) \<le> TIME_WINDOW_SECONDS"
  shows "take (Suc i - s) (drop s txns) = window72 txns i"
proof -
  let ?P = "\<lambda>e. ts (txns ! i) - ts e \<le> TIME_WINDOW_SECONDS"
  have split: "take (Suc i) txns = take s txns @ take (Suc i - s) (drop s txns)"
    using s take_add [of s "Suc i - s" txns] by simp
  have "\<forall>e\<in>set (take s txns). \<not> ?P e"
  proof
    fix e assume "e \<in> set (take s txns)"
    then obtain j where "j < length (take s txns)" "e = take s txns ! j"
      by (auto simp: in_set_conv_nth)
    then have "j < s" "e = txns ! j" by simp_all
    with before show "\<not> ?P e" by auto
  qed
  then have f1: "filter ?P (take s txns) = []" by (simp add: filter_empty_conv)
  have "\<forall>e\<in>set (take (Suc i - s) (drop s txns)). ?P e"
  proof
    fix e assume "e \<in> set (take (Suc i - s) (drop s txns))"
    then obtain j where j: "j < length (take (Suc i - s) (drop s txns))"
      and e: "e = take (Suc i - s) (drop s txns) ! j"
      by (auto simp: in_set_conv_nth)
    from j i s have js: "j < Suc i - s" "s + j < length txns" by simp_all
    with e have e': "e = txns ! (s + j)" by simp
    have "map ts txns ! s \<le> map ts txns ! (s + j)"
      using srt js by (intro sorted_nth_mono) simp_all
    then have "ts (txns ! s) \<le> ts e" using e' js i s by simp
    with at show "?P e" by simp
  qed
  then have f2: "filter ?P (take (Suc i - s) (drop s txns)) = take (Suc i - s) (drop s txns)"
    by simp
  show ?thesis unfolding window72_def split filter_append f1 f2 by simp
qed

lemma scan_spec:
  assumes "sorted (map ts txns)" and "start_idx \<le> i"
    and "\<forall>j<start_idx. \<forall>k. i \<le> k \<and> k < length txns \<longrightarrow> ts (txns ! k) - ts (txns ! j) > TIME_WINDOW_SECONDS"
  shows "(case scan th txns start_idx i of
            None \<Rightarrow> \<forall>k. i \<le> k \<and> k < length txns \<longrightarrow> length (parties_in txns k) < th
          | Some (k, ps) \<Rightarrow> i \<le> k \<and> k < length txns \<and> ps = parties_in txns k \<and> th \<le> length ps \<and>
               (\<forall>j. i \<le> j \<and> j < k \<longrightarrow> length (parties_in txns j) < th))"
  using assms
proof (induction th txns start_idx i rule: scan.induct)
  case (1 th txns start_idx i)
  show ?case
  proof (cases "i < length txns")
    case False
    then have "scan th txns start_idx i = None" by (subst scan.simps) simp
    with False show ?thesis by simp
  next
    case True
    define s where "s = advance txns start_idx i"
    have b: "\<forall>j<start_idx. ts (txns ! i) - ts (txns ! j) > TIME_WINDOW_SECONDS"
      using "1.prems"(3) True by auto
    from advance_spec [OF "1.prems"(2) b] advance_bounds [OF "1.prems"(2)]
    have sp: "\<forall>j<s. ts (txns ! i) - ts (txns ! j) > TIME_WINDOW_SECONDS"
      "ts (txns ! i) - ts (txns ! s) \<le> TIME_WINDOW_SECONDS" "start_idx \<le> s" "s \<le> i"
      unfolding s_def by simp_all
    have w: "take (Suc i - s) (drop s txns) = window72 txns i"
      by (rule window_eq [OF "1.prems"(1) True sp(4) sp(1) sp(2)])
    show ?thesis
    proof (cases "th \<le> length (parties_in txns i)")
      case hit: True
      then have "scan th txns start_idx i = Some (i, parties_in txns i)"
        using True w by (subst scan.simps) (simp add: s_def [symmetric] parties_in_def Let_def)
      with True hit show ?thesis by simp
    next
      case miss: False
      then have eq: "scan th txns start_idx i = scan th txns s (Suc i)"
        using True w by (subst scan.simps) (simp add: s_def [symmetric] parties_in_def Let_def)
      have inv: "\<forall>j<s. \<forall>k. Suc i \<le> k \<and> k < length txns \<longrightarrow> ts (txns ! k) - ts (txns ! j) > TIME_WINDOW_SECONDS"
      proof (intro allI impI)
        fix j k assume j: "j < s" and k: "Suc i \<le> k \<and> k < length txns"
        have "map ts txns ! i \<le> map ts txns ! k"
          using "1.prems"(1) k by (intro sorted_nth_mono) simp_all
        then have "ts (txns ! i) \<le> ts (txns ! k)" using k True by simp
        with sp(1) j show "ts (txns ! k) - ts (txns ! j) > TIME_WINDOW_SECONDS" by force
      qed
      have "s \<le> Suc i" using sp(4) by simp
      have m2: "\<not> th \<le> length (remdups (map party (take (Suc i - s) (drop s txns))))"
        using miss w by (simp add: parties_in_def)
      note IH = "1.IH" [OF True s_def refl refl m2 "1.prems"(1) \<open>s \<le> Suc i\<close> inv]
      show ?thesis
      proof (cases "scan th txns s (Suc i)")
        case None
        with IH have "\<forall>k. Suc i \<le> k \<and> k < length txns \<longrightarrow> length (parties_in txns k) < th" by simp
        with miss have "\<forall>k. i \<le> k \<and> k < length txns \<longrightarrow> length (parties_in txns k) < th"
          by (metis Suc_leI le_neq_implies_less not_le)
        with None eq show ?thesis by simp
      next
        case (Some r)
        obtain k ps where r: "r = (k, ps)" by (cases r)
        with Some IH have h: "Suc i \<le> k" "k < length txns" "ps = parties_in txns k" "th \<le> length ps"
          "\<forall>j. Suc i \<le> j \<and> j < k \<longrightarrow> length (parties_in txns j) < th" by auto
        from h(5) miss have "\<forall>j. i \<le> j \<and> j < k \<longrightarrow> length (parties_in txns j) < th"
          by (metis Suc_leI le_neq_implies_less not_le)
        with h Some r eq show ?thesis by simp
      qed
    qed
  qed
qed

section \<open>Grouping of transactions by counterparty\<close>

lemma map_of_dict_append:
  "map_of (dict_append k v d) = (map_of d)(k \<mapsto> lookup d k @ [v])"
  by (induction d) (auto simp: lookup_def fun_eq_iff)

lemma lookup_dict_append:
  "lookup (dict_append k v d) a = (if a = k then lookup d k @ [v] else lookup d a)"
  by (simp add: lookup_def map_of_dict_append)

lemma keys_dict_append:
  "fst ` set (dict_append k v d) = insert k (fst ` set d)"
proof (induction d)
  case Nil
  show ?case by simp
next
  case (Cons kv d)
  obtain k' vs where kv: "kv = (k', vs)" by (cases kv)
  show ?case
  proof (cases "k' = k")
    case True
    with kv show ?thesis by auto
  next
    case False
    with kv Cons.IH show ?thesis by (simp add: insert_commute)
  qed
qed

lemma distinct_dict_append:
  "distinct (map fst d) \<Longrightarrow> distinct (map fst (dict_append k v d))"
proof (induction d)
  case Nil
  show ?case by simp
next
  case (Cons kv d)
  obtain k' vs where kv: "kv = (k', vs)" by (cases kv)
  show ?case
  proof (cases "k' = k")
    case True
    with kv Cons.prems show ?thesis by simp
  next
    case False
    with kv Cons show ?thesis by (simp add: keys_dict_append)
  qed
qed

lemma group_txns_spec:
  assumes "group_txns sp txns fan_in fan_out = Inr (fi, fo)"
    and "distinct (map fst fan_in)" and "distinct (map fst fan_out)"
  shows "distinct (map fst fi) \<and> distinct (map fst fo) \<and>
         (\<forall>acc. lookup fi acc = lookup fan_in acc @ fan_in_entries sp txns acc) \<and>
         (\<forall>acc. lookup fo acc = lookup fan_out acc @ fan_out_entries sp txns acc)"
  using assms
proof (induction txns arbitrary: fan_in fan_out)
  case Nil
  then show ?case by (simp add: fan_in_entries_def fan_out_entries_def)
next
  case (Cons t rest)
  from Cons.prems(1) obtain a where a: "py_float (amount t) = Inr a"
    by (cases "py_float (amount t)") (simp_all add: Let_def)
  then have sf: "safe_float (amount t) = a" by (simp add: safe_float_def)
  show ?case
  proof (cases "fan_valid sp t")
    case False
    with Cons.prems(1) a have "group_txns sp rest fan_in fan_out = Inr (fi, fo)"
      by (auto simp: Let_def fan_valid_def split: if_splits)
    from Cons.IH [OF this Cons.prems(2,3)] False show ?thesis
      by (simp add: fan_in_entries_def fan_out_entries_def)
  next
    case True
    then obtain s r where sr: "sender_id t = Some s" "receiver_id t = Some r"
      by (auto simp: fan_valid_def truthy_def split: option.splits)
    let ?fi = "dict_append r (in_entry sp t) fan_in"
    let ?fo = "dict_append s (out_entry sp t) fan_out"
    from Cons.prems(1) a True sr have "group_txns sp rest ?fi ?fo = Inr (fi, fo)"
      by (simp add: Let_def fan_valid_def in_entry_def out_entry_def sf)
    from Cons.IH [OF this distinct_dict_append [OF Cons.prems(2)] distinct_dict_append [OF Cons.prems(3)]]
    show ?thesis using True sr
      by (simp add: fan_in_entries_def fan_out_entries_def lookup_dict_append)
  qed
qed

lemma group_txns_error:
  "(\<exists>t\<in>set txns. amount t = AmountUnparseable) \<Longrightarrow> group_txns sp txns fan_in fan_out = Inl ValueError"
proof (induction txns arbitrary: fan_in fan_out)
  case Nil
  then show ?case by simp
next
  case (Cons t rest)
  show ?case
  proof (cases "amount t")
    case AmountUnparseable
    then show ?thesis by (simp add: py_float_def Let_def)
  next
    case AmountMissing
    with Cons.prems have "\<exists>t\<in>set rest. amount t = AmountUnparseable" by auto
    from Cons.IH [OF this] AmountMissing show ?thesis by (simp add: py_float_def Let_def)
  next
    case (AmountNumber v)
    with Cons.prems have "\<exists>t\<in>set rest. amount t = AmountUnparseable" by auto
    from Cons.IH [OF this] AmountNumber show ?thesis by (simp add: py_float_def Let_def)
  qed
qed

lemma group_txns_ok:
  "(\<forall>t\<in>set txns. amount t \<noteq> AmountUnparseable) \<Longrightarrow> \<exists>r. group_txns sp txns fan_in fan_out = Inr r"
proof (induction txns arbitrary: fan_in fan_out)
  case Nil
  then show ?case by simp
next
  case (Cons t rest)
  then have "amount t \<noteq> AmountUnparseable" and rest: "\<forall>t\<in>set rest. amount t \<noteq> AmountUnparseable" by auto
  then obtain a where "py_float (amount t) = Inr a" by (cases "amount t") (auto simp: py_float_def)
  with Cons.IH [OF rest] show ?case by (simp add: Let_def)
qed

lemma filter_map_filter_key:
  assumes "distinct (map fst d)"
    and "\<And>k v y. f (k, v) = Some y \<Longrightarrow> (P y \<longleftrightarrow> k = a)"
  shows "filter P (List.map_filter f d) =
         (case map_of d a of None \<Rightarrow> [] | Some v \<Rightarrow> (case f (a, v) of None \<Rightarrow> [] | Some y \<Rightarrow> [y]))"
  using assms(1)
proof (induction d)
  case Nil
  then show ?case by (simp add: List.map_filter_simps)
next
  case (Cons kv d)
  obtain k v where kv: "kv = (k, v)" by (cases kv)
  from Cons.prems kv have d: "distinct (map fst d)" and k: "k \<notin> fst ` set d" by auto
  note IH = Cons.IH [OF d]
  show ?case
  proof (cases "k = a")
    case True
    with k have none: "map_of d a = None" by (simp add: map_of_eq_None_iff)
    with IH have rest: "filter P (List.map_filter f d) = []" by simp
    show ?thesis
    proof (cases "f (a, v)")
      case None
      with True kv rest show ?thesis by (simp add: List.map_filter_simps)
    next
      case (Some y)
      with assms(2) [of a v y] have "P y" by simp
      with Some True kv rest show ?thesis by (simp add: List.map_filter_simps)
    qed
  next
    case False
    show ?thesis
    proof (cases "f (k, v)")
      case None
      with False kv IH show ?thesis by (simp add: List.map_filter_simps)
    next
      case (Some y)
      with assms(2) [of k v y] False have "\<not> P y" by simp
      with Some False kv IH show ?thesis by (simp add: List.map_filter_simps)
    qed
  qed
qed

section \<open>First qualifying window of one account\<close>

lemma scan_start:
  assumes "sorted (map ts E)"
  shows "(case scan th E 0 0 of
            None \<Rightarrow> \<forall>k<length E. length (parties_in E k) < th
          | Some (k, ps) \<Rightarrow> k < length E \<and> ps = parties_in E k \<and> th \<le> length ps \<and>
               (\<forall>j<k. length (parties_in E j) < th))"
  using scan_spec [OF assms, of 0 0 th] by (auto split: option.splits)

lemma scan_first:
  assumes "sorted (map ts E)" and "k < length E" and "th \<le> length (parties_in E k)"
    and "\<forall>j<k. length (parties_in E j) < th"
  shows "scan th E 0 0 = Some (k, parties_in E k)"
proof (cases "scan th E 0 0")
  case None
  with scan_start [OF assms(1), of th] assms(2,3) show ?thesis by auto
next
  case (Some r)
  obtain k' ps where r: "r = (k', ps)" by (cases r)
  with Some scan_start [OF assms(1), of th]
  have h: "k' < length E" "ps = parties_in E k'" "th \<le> length (parties_in E k')"
    "\<forall>j<k'. length (parties_in E j) < th" by auto
  have "k' = k"
  proof (rule ccontr)
    assume "k' \<noteq> k"
    then consider "k' < k" | "k < k'" by linarith
    then show False
    proof cases
      case 1
      with assms(4) h(3) show False by auto
    next
      case 2
      with h(4) assms(3) show False by auto
    qed
  qed
  with Some r h show ?thesis by simp
qed

lemma scan_none:
  assumes "sorted (map ts E)" and "\<forall>k<length E. length (parties_in E k) < th"
  shows "scan th E 0 0 = None"
proof (cases "scan th E 0 0")
  case None
  then show ?thesis .
next
  case (Some r)
  obtain k ps where "r = (k, ps)" by (cases r)
  with Some scan_start [OF assms(1), of th] assms(2) show ?thesis by auto
qed

lemma parties_in_subset: "set (parties_in E k) \<subseteq> party ` set E"
  by (auto simp: parties_in_def window72_def dest: in_set_takeD)

lemma parties_in_le_distinct: "length (parties_in E k) \<le> card (party ` set E)"
proof -
  have "length (parties_in E k) = card (set (parties_in E k))"
    by (simp add: parties_in_def length_remdups_card_conv)
  also have "\<dots> \<le> card (party ` set E)"
    by (intro card_mono parties_in_subset) simp
  finally show ?thesis .
qed

lemma parties_in_le_index: "length (parties_in E k) \<le> Suc k"
proof -
  have "length (parties_in E k) \<le> length (window72 E k)"
    by (simp add: parties_in_def) (metis length_map length_remdups_leq)
  also have "\<dots> \<le> length (take (Suc k) E)"
    unfolding window72_def by (rule length_filter_le)
  also have "\<dots> \<le> Suc k" by simp
  finally show ?thesis .
qed

lemma sorted_sort_ts: "sorted (map ts (sort_key ts es))"
  by (rule sorted_sort_key)

lemma fan_in_record_None:
  assumes "\<forall>k<length es. length (parties_in (sort_key ts es) k) < FAN_IN_THRESHOLD"
  shows "fan_in_record acc es = None"
proof -
  have "scan FAN_IN_THRESHOLD (sort_key ts es) 0 0 = None"
    using assms by (intro scan_none sorted_sort_ts) simp
  then show ?thesis by (simp add: fan_in_record_def Let_def)
qed

lemma fan_in_record_Some:
  assumes "k < length es" and "FAN_IN_THRESHOLD \<le> length (parties_in (sort_key ts es) k)"
    and "\<forall>j<k. length (parties_in (sort_key ts es) j) < FAN_IN_THRESHOLD"
  shows "fan_in_record acc es = Some
          (\<lparr>account_id = acc, suspicion_score = 80, detected_patterns = [''fan_in''],
            ring_id = ''SMURF_IN_'' @ acc\<rparr>,
           \<lparr>ring_id = ''SMURF_IN_'' @ acc,
            member_accounts = parties_in (sort_key ts es) k @ [acc],
            pattern_type = ''fan_in'', risk_score = 85,
            detected_at = Some (ts (sort_key ts es ! k))\<rparr>)"
proof -
  have "scan FAN_IN_THRESHOLD (sort_key ts es) 0 0 = Some (k, parties_in (sort_key ts es) k)"
    using assms by (intro scan_first sorted_sort_ts) simp_all
  then show ?thesis by (simp add: fan_in_record_def Let_def)
qed

lemma fan_out_record_None:
  assumes "\<forall>k<length es. length (parties_in (sort_key ts es) k) < FAN_OUT_THRESHOLD"
  shows "fan_out_record acc es = None"
proof -
  have "scan FAN_OUT_THRESHOLD (sort_key ts es) 0 0 = None"
    using assms by (intro scan_none sorted_sort_ts) simp
  then show ?thesis by (simp add: fan_out_record_def Let_def)
qed

lemma fan_out_record_Some:
  assumes "k < length es" and "FAN_OUT_THRESHOLD \<le> length (parties_in (sort_key ts es) k)"
    and "\<forall>j<k. length (parties_in (sort_key ts es) j) < FAN_OUT_THRESHOLD"
  shows "fan_out_record acc es = Some
          (\<lparr>account_id = acc, suspicion_score = 80, detected_patterns = [''fan_out''],
            ring_id = ''SMURF_OUT_'' @ acc\<rparr>,
           \<lparr>ring_id = ''SMURF_OUT_'' @ acc,
            member_accounts = acc # parties_in (sort_key ts es) k,
            pattern_type = ''fan_out'', risk_score = 85,
            detected_at = Some (ts (sort_key ts es ! k))\<rparr>)"
proof -
  have "scan FAN_OUT_THRESHOLD (sort_key ts es) 0 0 = Some (k, parties_in (sort_key ts es) k)"
    using assms by (intro scan_first sorted_sort_ts) simp_all
  then show ?thesis by (simp add: fan_out_record_def Let_def)
qed

lemma fan_in_record_shape:
  assumes "fan_in_record acc es = Some (a, r)"
  shows "account_id a = acc \<and> suspicion_score a = 80 \<and> detected_patterns a = [''fan_in''] \<and>
         fraud_ring.ring_id r = ''SMURF_IN_'' @ acc \<and> pattern_type r = ''fan_in'' \<and>
         risk_score r = 85 \<and> set (member_accounts r) \<subseteq> insert acc (party ` set es) \<and> es \<noteq> []"
proof (cases "scan FAN_IN_THRESHOLD (sort_key ts es) 0 0")
  case None
  with assms show ?thesis by (simp add: fan_in_record_def Let_def)
next
  case (Some kp)
  obtain k ps where kp: "kp = (k, ps)" by (cases kp)
  with Some scan_start [where th = FAN_IN_THRESHOLD, OF sorted_sort_ts, of es]
  have "k < length es" "ps = parties_in (sort_key ts es) k" by auto
  moreover have "set (parties_in (sort_key ts es) k) \<subseteq> party ` set es"
    using parties_in_subset [of "sort_key ts es" k] by simp
  ultimately show ?thesis using assms Some kp
    by (auto simp: fan_in_record_def Let_def)
qed

lemma fan_out_record_shape:
  assumes "fan_out_record acc es = Some (a, r)"
  shows "account_id a = acc \<and> suspicion_score a = 80 \<and> detected_patterns a = [''fan_out''] \<and>
         fraud_ring.ring_id r = ''SMURF_OUT_'' @ acc \<and> pattern_type r = ''fan_out'' \<and>
         risk_score r = 85 \<and> set (member_accounts r) \<subseteq> insert acc (party ` set es) \<and> es \<noteq> []"
proof (cases "scan FAN_OUT_THRESHOLD (sort_key ts es) 0 0")
  case None
  with assms show ?thesis by (simp add: fan_out_record_def Let_def)
next
  case (Some kp)
  obtain k ps where kp: "kp = (k, ps)" by (cases kp)
  with Some scan_start [where th = FAN_OUT_THRESHOLD, OF sorted_sort_ts, of es]
  have "k < length es" "ps = parties_in (sort_key ts es) k" by auto
  moreover have "set (parties_in (sort_key ts es) k) \<subseteq> party ` set es"
    using parties_in_subset [of "sort_key ts es" k] by simp
  ultimately show ?thesis using assms Some kp
    by (auto simp: fan_out_record_def Let_def)
qed

section \<open>Records of one account in a run of the smurfing detector\<close>

lemma run_unfold:
  assumes "SmurfingDetector_run sp txns = Inr res"
  shows "\<exists>fi fo. group_txns sp txns [] [] = Inr (fi, fo) \<and>
     suspicious_accounts res =
       map fst (List.map_filter (\<lambda>(acc, txns). fan_in_record acc txns) fi) @
       map fst (List.map_filter (\<lambda>(acc, txns). fan_out_record acc txns) fo) \<and>
     fraud_rings res =
       map snd (List.map_filter (\<lambda>(acc, txns). fan_in_record acc txns) fi) @
       map snd (List.map_filter (\<lambda>(acc, txns). fan_out_record acc txns) fo)"
  using assms
  by (auto simp: SmurfingDetector_run_def Let_def split: sum.splits prod.splits)

lemma map_filter_mem:
  "y \<in> set (List.map_filter f xs) \<longleftrightarrow> (\<exists>x\<in>set xs. f x = Some y)"
  by (force simp: List.map_filter_def)

lemma lookup_distinct:
  "distinct (map fst d) \<Longrightarrow> (k, v) \<in> set d \<Longrightarrow> lookup d k = v"
  by (simp add: lookup_def)

lemma lookup_None: "map_of d k = None \<Longrightarrow> lookup d k = []"
  by (simp add: lookup_def)

lemma lookup_Some: "map_of d k = Some v \<Longrightarrow> lookup d k = v"
  by (simp add: lookup_def)

lemma fan_in_record_Nil: "fan_in_record acc [] = None"
  using fan_in_record_shape [of acc "[]"] by (cases "fan_in_record acc []") auto

lemma fan_out_record_Nil: "fan_out_record acc [] = None"
  using fan_out_record_shape [of acc "[]"] by (cases "fan_out_record acc []") auto

lemma select_in:
  assumes d: "distinct (map fst fi)"
    and P: "\<And>k v y. fan_in_record k v = Some y \<Longrightarrow> (P y \<longleftrightarrow> k = acc)"
  shows "filter P (List.map_filter (\<lambda>(acc, txns). fan_in_record acc txns) fi) =
         (case fan_in_record acc (lookup fi acc) of None \<Rightarrow> [] | Some y \<Rightarrow> [y])"
proof -
  have "filter P (List.map_filter (\<lambda>(acc, txns). fan_in_record acc txns) fi) =
        (case map_of fi acc of None \<Rightarrow> []
         | Some v \<Rightarrow> (case (\<lambda>(acc, txns). fan_in_record acc txns) (acc, v) of None \<Rightarrow> [] | Some y \<Rightarrow> [y]))"
    using P by (intro filter_map_filter_key [OF d]) simp
  then show ?thesis
    by (cases "map_of fi acc") (simp_all add: lookup_None lookup_Some fan_in_record_Nil)
qed

lemma select_out:
  assumes d: "distinct (map fst fo)"
    and P: "\<And>k v y. fan_out_record k v = Some y \<Longrightarrow> (P y \<longleftrightarrow> k = acc)"
  shows "filter P (List.map_filter (\<lambda>(acc, txns). fan_out_record acc txns) fo) =
         (case fan_out_record acc (lookup fo acc) of None \<Rightarrow> [] | Some y \<Rightarrow> [y])"
proof -
  have "filter P (List.map_filter (\<lambda>(acc, txns). fan_out_record acc txns) fo) =
        (case map_of fo acc of None \<Rightarrow> []
         | Some v \<Rightarrow> (case (\<lambda>(acc, txns). fan_out_record acc txns) (acc, v) of None \<Rightarrow> [] | Some y \<Rightarrow> [y]))"
    using P by (intro filter_map_filter_key [OF d]) simp
  then show ?thesis
    by (cases "map_of fo acc") (simp_all add: lookup_None lookup_Some fan_out_record_Nil)
qed

lemma reject_all:
  assumes "\<And>x y. f x = Some y \<Longrightarrow> \<not> P y"
  shows "filter P (List.map_filter f xs) = []"
  using assms by (auto simp: filter_empty_conv map_filter_mem)

lemma run_per_account:
  assumes run: "SmurfingDetector_run sp txns = Inr res"
  shows "fan_in_rings_of res acc =
           (case fan_in_record acc (fan_in_entries sp txns acc) of None \<Rightarrow> [] | Some y \<Rightarrow> [snd y])"
    and "fan_in_flags_of res acc =
           (case fan_in_record acc (fan_in_entries sp txns acc) of None \<Rightarrow> [] | Some y \<Rightarrow> [fst y])"
    and "fan_out_rings_of res acc =
           (case fan_out_record acc (fan_out_entries sp txns acc) of None \<Rightarrow> [] | Some y \<Rightarrow> [snd y])"
    and "fan_out_flags_of res acc =
           (case fan_out_record acc (fan_out_entries sp txns acc) of None \<Rightarrow> [] | Some y \<Rightarrow> [fst y])"
proof -
  let ?fin = "\<lambda>(acc, txns). fan_in_record acc txns"
  let ?fout = "\<lambda>(acc, txns). fan_out_record acc txns"
  from run_unfold [OF run] obtain fi fo where g: "group_txns sp txns [] [] = Inr (fi, fo)"
    and sa: "suspicious_accounts res = map fst (List.map_filter ?fin fi) @ map fst (List.map_filter ?fout fo)"
    and fr: "fraud_rings res = map snd (List.map_filter ?fin fi) @ map snd (List.map_filter ?fout fo)"
    by blast
  from group_txns_spec [OF g] have d: "distinct (map fst fi)" "distinct (map fst fo)"
    and li: "lookup fi acc = fan_in_entries sp txns acc"
    and lo: "lookup fo acc = fan_out_entries sp txns acc"
    by (simp_all add: lookup_def)
  let ?Ri = "\<lambda>r. fraud_ring.ring_id r = ''SMURF_IN_'' @ acc"
  let ?Ro = "\<lambda>r. fraud_ring.ring_id r = ''SMURF_OUT_'' @ acc"
  let ?Ai = "\<lambda>a. account_id a = acc \<and> detected_patterns a = [''fan_in'']"
  let ?Ao = "\<lambda>a. account_id a = acc \<and> detected_patterns a = [''fan_out'']"
  have i1: "filter (?Ri \<circ> snd) (List.map_filter ?fin fi) =
            (case fan_in_record acc (lookup fi acc) of None \<Rightarrow> [] | Some y \<Rightarrow> [y])"
    by (rule select_in [OF d(1)]) (use fan_in_record_shape in fastforce)
  have i2: "filter (?Ri \<circ> snd) (List.map_filter ?fout fo) = []"
    by (rule reject_all) (use fan_out_record_shape in fastforce)
  have i3: "filter (?Ai \<circ> fst) (List.map_filter ?fin fi) =
            (case fan_in_record acc (lookup fi acc) of None \<Rightarrow> [] | Some y \<Rightarrow> [y])"
    by (rule select_in [OF d(1)]) (use fan_in_record_shape in fastforce)
  have i4: "filter (?Ai \<circ> fst) (List.map_filter ?fout fo) = []"
    by (rule reject_all) (use fan_out_record_shape in fastforce)
  have o1: "filter (?Ro \<circ> snd) (List.map_filter ?fout fo) =
            (case fan_out_record acc (lookup fo acc) of None \<Rightarrow> [] | Some y \<Rightarrow> [y])"
    by (rule select_out [OF d(2)]) (use fan_out_record_shape in fastforce)
  have o2: "filter (?Ro \<circ> snd) (List.map_filter ?fin fi) = []"
    by (rule reject_all) (use fan_in_record_shape in fastforce)
  have o3: "filter (?Ao \<circ> fst) (List.map_filter ?fout fo) =
            (case fan_out_record acc (lookup fo acc) of None \<Rightarrow> [] | Some y \<Rightarrow> [y])"
    by (rule select_out [OF d(2)]) (use fan_out_record_shape in fastforce)
  have o4: "filter (?Ao \<circ> fst) (List.map_filter ?fin fi) = []"
    by (rule reject_all) (use fan_in_record_shape in fastforce)
  show "fan_in_rings_of res acc =
           (case fan_in_record acc (fan_in_entries sp txns acc) of None \<Rightarrow> [] | Some y \<Rightarrow> [snd y])"
    unfolding fan_in_rings_of_def fr filter_append filter_map i1 i2 li
    by (simp split: option.splits)
  show "fan_in_flags_of res acc =
           (case fan_in_record acc (fan_in_entries sp txns acc) of None \<Rightarrow> [] | Some y \<Rightarrow> [fst y])"
    unfolding fan_in_flags_of_def sa filter_append filter_map i3 i4 li
    by (simp split: option.splits)
  show "fan_out_rings_of res acc =
           (case fan_out_record acc (fan_out_entries sp txns acc) of None \<Rightarrow> [] | Some y \<Rightarrow> [snd y])"
    unfolding fan_out_rings_of_def fr filter_append filter_map o1 o2 lo
    by (simp split: option.splits)
  show "fan_out_flags_of res acc =
           (case fan_out_record acc (fan_out_entries sp txns acc) of None \<Rightarrow> [] | Some y \<Rightarrow> [fst y])"
    unfolding fan_out_flags_of_def sa filter_append filter_map o3 o4 lo
    by (simp split: option.splits)
qed

section \<open>Accounts and scores in the output of the smurfing detector\<close>

lemma SmurfingDetector_run_returns:
  "(\<forall>t\<in>set txns. amount t \<noteq> AmountUnparseable) \<Longrightarrow> \<exists>res. SmurfingDetector_run sp txns = Inr res"
  using group_txns_ok [of txns sp "[]" "[]"]
  by (auto simp: SmurfingDetector_run_def Let_def split: prod.splits)

lemma SmurfingDetector_run_raises:
  "(\<exists>t\<in>set txns. amount t = AmountUnparseable) \<Longrightarrow> SmurfingDetector_run sp txns = Inl ValueError"
  using group_txns_error [of txns sp "[]" "[]"]
  by (simp add: SmurfingDetector_run_def)

lemma group_txns_filter_ts:
  "group_txns sp txns fan_in fan_out = Inr x \<Longrightarrow>
   group_txns sp (filter (\<lambda>t. parse_ts sp (timestamp t) \<noteq> None) txns) fan_in fan_out = Inr x"
proof (induction txns arbitrary: fan_in fan_out)
  case Nil
  then show ?case by simp
next
  case (Cons t rest)
  from Cons.prems obtain a where a: "py_float (amount t) = Inr a"
    by (cases "py_float (amount t)") (simp_all add: Let_def)
  show ?case
  proof (cases "parse_ts sp (timestamp t) = None")
    case True
    with Cons.prems a have "group_txns sp rest fan_in fan_out = Inr x" by (simp add: Let_def)
    from Cons.IH [OF this] True show ?thesis by simp
  next
    case False
    show ?thesis
    proof (cases "truthy (sender_id t) \<and> truthy (receiver_id t)")
      case True
      with Cons.prems a False Cons.IH show ?thesis by (simp add: Let_def)
    next
      case nt: False
      with Cons.prems a have "group_txns sp rest fan_in fan_out = Inr x"
        by (auto simp: Let_def split: if_splits)
      from Cons.IH [OF this] a nt False show ?thesis by (auto simp: Let_def)
    qed
  qed
qed

lemma fan_in_entries_nonempty:
  "fan_in_entries sp txns k \<noteq> [] \<Longrightarrow> \<exists>t\<in>set txns. fan_valid sp t \<and> receiver_id t = Some k"
  by (auto simp: fan_in_entries_def filter_empty_conv)

lemma fan_out_entries_nonempty:
  "fan_out_entries sp txns k \<noteq> [] \<Longrightarrow> \<exists>t\<in>set txns. fan_valid sp t \<and> sender_id t = Some k"
  by (auto simp: fan_out_entries_def filter_empty_conv)

lemma fan_in_entries_party:
  "m \<in> party ` set (fan_in_entries sp txns k) \<Longrightarrow>
   \<exists>t\<in>set txns. fan_valid sp t \<and> receiver_id t = Some k \<and> sender_id t = Some m"
proof -
  assume "m \<in> party ` set (fan_in_entries sp txns k)"
  then obtain t where t: "t \<in> set txns" "fan_valid sp t" "receiver_id t = Some k"
    and m: "m = the (sender_id t)"
    by (auto simp: fan_in_entries_def in_entry_def)
  from t(2) m have "sender_id t = Some m"
    by (auto simp: fan_valid_def truthy_def split: option.splits)
  with t show ?thesis by blast
qed

lemma fan_out_entries_party:
  "m \<in> party ` set (fan_out_entries sp txns k) \<Longrightarrow>
   \<exists>t\<in>set txns. fan_valid sp t \<and> sender_id t = Some k \<and> receiver_id t = Some m"
proof -
  assume "m \<in> party ` set (fan_out_entries sp txns k)"
  then obtain t where t: "t \<in> set txns" "fan_valid sp t" "sender_id t = Some k"
    and m: "m = the (receiver_id t)"
    by (auto simp: fan_out_entries_def out_entry_def)
  from t(2) m have "receiver_id t = Some m"
    by (auto simp: fan_valid_def truthy_def split: option.splits)
  with t show ?thesis by blast
qed

lemma run_outputs:
  assumes run: "SmurfingDetector_run sp txns = Inr res"
  shows "a \<in> set (suspicious_accounts res) \<Longrightarrow>
           suspicion_score a = 80 \<and>
           (\<exists>t\<in>set txns. fan_valid sp t \<and>
              (sender_id t = Some (account_id a) \<or> receiver_id t = Some (account_id a)))"
    and "r \<in> set (fraud_rings res) \<Longrightarrow>
           risk_score r = 85 \<and>
           (\<forall>m\<in>set (member_accounts r). \<exists>t\<in>set txns. fan_valid sp t \<and>
              (sender_id t = Some m \<or> receiver_id t = Some m))"
proof -
  let ?fin = "\<lambda>(acc, txns). fan_in_record acc txns"
  let ?fout = "\<lambda>(acc, txns). fan_out_record acc txns"
  from run_unfold [OF run] obtain fi fo where g: "group_txns sp txns [] [] = Inr (fi, fo)"
    and sa: "suspicious_accounts res = map fst (List.map_filter ?fin fi) @ map fst (List.map_filter ?fout fo)"
    and fr: "fraud_rings res = map snd (List.map_filter ?fin fi) @ map snd (List.map_filter ?fout fo)"
    by blast
  from group_txns_spec [OF g] have d: "distinct (map fst fi)" "distinct (map fst fo)"
    and li: "\<And>k. lookup fi k = fan_in_entries sp txns k"
    and lo: "\<And>k. lookup fo k = fan_out_entries sp txns k"
    by (simp_all add: lookup_def)
  have ins: "\<exists>k. fan_in_record k (fan_in_entries sp txns k) = Some y"
    if "y \<in> set (List.map_filter ?fin fi)" for y
  proof -
    from that obtain k v where "(k, v) \<in> set fi" "fan_in_record k v = Some y"
      by (auto simp: map_filter_mem)
    with lookup_distinct [OF d(1)] li show ?thesis by metis
  qed
  have outs: "\<exists>k. fan_out_record k (fan_out_entries sp txns k) = Some y"
    if "y \<in> set (List.map_filter ?fout fo)" for y
  proof -
    from that obtain k v where "(k, v) \<in> set fo" "fan_out_record k v = Some y"
      by (auto simp: map_filter_mem)
    with lookup_distinct [OF d(2)] lo show ?thesis by metis
  qed
  have in_ok: "suspicion_score a = 80 \<and> risk_score r = 85 \<and>
      (\<exists>t\<in>set txns. fan_valid sp t \<and> (sender_id t = Some (account_id a) \<or> receiver_id t = Some (account_id a))) \<and>
      (\<forall>m\<in>set (member_accounts r). \<exists>t\<in>set txns. fan_valid sp t \<and> (sender_id t = Some m \<or> receiver_id t = Some m))"
    if "fan_in_record k (fan_in_entries sp txns k) = Some (a, r)" for k a r
  proof -
    from fan_in_record_shape [OF that]
    have s: "account_id a = k" "suspicion_score a = 80" "risk_score r = 85"
      "set (member_accounts r) \<subseteq> insert k (party ` set (fan_in_entries sp txns k))"
      "fan_in_entries sp txns k \<noteq> []" by simp_all
    from fan_in_entries_nonempty [OF s(5)]
    have k: "\<exists>t\<in>set txns. fan_valid sp t \<and> (sender_id t = Some k \<or> receiver_id t = Some k)" by blast
    have "\<exists>t\<in>set txns. fan_valid sp t \<and> (sender_id t = Some m \<or> receiver_id t = Some m)"
      if "m \<in> set (member_accounts r)" for m
    proof (cases "m = k")
      case True
      with k show ?thesis by simp
    next
      case False
      with that s(4) have "m \<in> party ` set (fan_in_entries sp txns k)" by auto
      from fan_in_entries_party [OF this] show ?thesis by blast
    qed
    with s k show ?thesis by simp
  qed
  have out_ok: "suspicion_score a = 80 \<and> risk_score r = 85 \<and>
      (\<exists>t\<in>set txns. fan_valid sp t \<and> (sender_id t = Some (account_id a) \<or> receiver_id t = Some (account_id a))) \<and>
      (\<forall>m\<in>set (member_accounts r). \<exists>t\<in>set txns. fan_valid sp t \<and> (sender_id t = Some m \<or> receiver_id t = Some m))"
    if "fan_out_record k (fan_out_entries sp txns k) = Some (a, r)" for k a r
  proof -
    from fan_out_record_shape [OF that]
    have s: "account_id a = k" "suspicion_score a = 80" "risk_score r = 85"
      "set (member_accounts r) \<subseteq> insert k (party ` set (fan_out_entries sp txns k))"
      "fan_out_entries sp txns k \<noteq> []" by simp_all
    from fan_out_entries_nonempty [OF s(5)]
    have k: "\<exists>t\<in>set txns. fan_valid sp t \<and> (sender_id t = Some k \<or> receiver_id t = Some k)" by blast
    have "\<exists>t\<in>set txns. fan_valid sp t \<and> (sender_id t = Some m \<or> receiver_id t = Some m)"
      if "m \<in> set (member_accounts r)" for m
    proof (cases "m = k")
      case True
      with k show ?thesis by simp
    next
      case False
      with that s(4) have "m \<in> party ` set (fan_out_entries sp txns k)" by auto
      from fan_out_entries_party [OF this] show ?thesis by blast
    qed
    with s k show ?thesis by simp
  qed
  have pairs: "\<exists>k. fan_in_record k (fan_in_entries sp txns k) = Some y \<or>
                   fan_out_record k (fan_out_entries sp txns k) = Some y"
    if "y \<in> set (List.map_filter ?fin fi) \<union> set (List.map_filter ?fout fo)" for y
    using that ins outs by blast
  show "suspicion_score a = 80 \<and>
           (\<exists>t\<in>set txns. fan_valid sp t \<and>
              (sender_id t = Some (account_id a) \<or> receiver_id t = Some (account_id a)))"
    if "a \<in> set (suspicious_accounts res)"
  proof -
    from that sa have "\<exists>r. (a, r) \<in> set (List.map_filter ?fin fi) \<union> set (List.map_filter ?fout fo)"
      by force
    then obtain r where "(a, r) \<in> set (List.map_filter ?fin fi) \<union> set (List.map_filter ?fout fo)" ..
    from pairs [OF this] in_ok out_ok show ?thesis by blast
  qed
  show "risk_score r = 85 \<and>
           (\<forall>m\<in>set (member_accounts r). \<exists>t\<in>set txns. fan_valid sp t \<and>
              (sender_id t = Some m \<or> receiver_id t = Some m))"
    if "r \<in> set (fraud_rings res)"
  proof -
    from that fr have "\<exists>a. (a, r) \<in> set (List.map_filter ?fin fi) \<union> set (List.map_filter ?fout fo)"
      by force
    then obtain a where "(a, r) \<in> set (List.map_filter ?fin fi) \<union> set (List.map_filter ?fout fo)" ..
    from pairs [OF this] in_ok out_ok show ?thesis by blast
  qed
qed

section \<open>Fan-in and fan-out flagging\<close>

text \<open>
  Claim C6. Take the fan-in transactions of an account in chronological order. If \<open>k\<close>
  is the first index whose 72-hour window holds at least 10 distinct senders, the run
  reports exactly one fan_in ring for the account, made of the senders of that window and
  the account and dated at transaction \<open>k\<close>, and exactly one fan_in
  suspicious-account record. If no window reaches 10 distinct senders, in particular if
  the account has fewer than 10 distinct senders, it reports neither. The same holds for
  fan-out over distinct receivers.
\<close>

theorem fan_flag_once:
  assumes run: "SmurfingDetector_run sp txns = Inr res"
  shows "(k < length (fan_in_sorted sp txns acc) \<and>
          FAN_IN_THRESHOLD \<le> length (parties_in (fan_in_sorted sp txns acc) k) \<and>
          (\<forall>j<k. length (parties_in (fan_in_sorted sp txns acc) j) < FAN_IN_THRESHOLD) \<longrightarrow>
            fan_in_rings_of res acc =
              [\<lparr>ring_id = ''SMURF_IN_'' @ acc,
                member_accounts = parties_in (fan_in_sorted sp txns acc) k @ [acc],
                pattern_type = ''fan_in'', risk_score = 85,
                detected_at = Some (ts (fan_in_sorted sp txns acc ! k))\<rparr>] \<and>
            fan_in_flags_of res acc =
              [\<lparr>account_id = acc, suspicion_score = 80, detected_patterns = [''fan_in''],
                ring_id = ''SMURF_IN_'' @ acc\<rparr>]) \<and>
         ((\<forall>i<length (fan_in_sorted sp txns acc).
              length (parties_in (fan_in_sorted sp txns acc) i) < FAN_IN_THRESHOLD) \<longrightarrow>
            fan_in_rings_of res acc = [] \<and> fan_in_flags_of res acc = []) \<and>
         (card (party ` set (fan_in_entries sp txns acc)) < FAN_IN_THRESHOLD \<longrightarrow>
            fan_in_rings_of res acc = [] \<and> fan_in_flags_of res acc = []) \<and>
         (k < length (fan_out_sorted sp txns acc) \<and>
          FAN_OUT_THRESHOLD \<le> length (parties_in (fan_out_sorted sp txns acc) k) \<and>
          (\<forall>j<k. length (parties_in (fan_out_sorted sp txns acc) j) < FAN_OUT_THRESHOLD) \<longrightarrow>
            fan_out_rings_of res acc =
              [\<lparr>ring_id = ''SMURF_OUT_'' @ acc,
                member_accounts = acc # parties_in (fan_out_sorted sp txns acc) k,
                pattern_type = ''fan_out'', risk_score = 85,
                detected_at = Some (ts (fan_out_sorted sp txns acc ! k))\<rparr>] \<and>
            fan_out_flags_of res acc =
              [\<lparr>account_id = acc, suspicion_score = 80, detected_patterns = [''fan_out''],
                ring_id = ''SMURF_OUT_'' @ acc\<rparr>]) \<and>
         ((\<forall>i<length (fan_out_sorted sp txns acc).
              length (parties_in (fan_out_sorted sp txns acc) i) < FAN_OUT_THRESHOLD) \<longrightarrow>
            fan_out_rings_of res acc = [] \<and> fan_out_flags_of res acc = []) \<and>
         (card (party ` set (fan_out_entries sp txns acc)) < FAN_OUT_THRESHOLD \<longrightarrow>
            fan_out_rings_of res acc = [] \<and> fan_out_flags_of res acc = [])"
proof -
  note pa = run_per_account [OF run, of acc]
  let ?Ei = "fan_in_entries sp txns acc" and ?Eo = "fan_out_entries sp txns acc"
  have in_hit: "fan_in_rings_of res acc =
              [\<lparr>ring_id = ''SMURF_IN_'' @ acc,
                member_accounts = parties_in (fan_in_sorted sp txns acc) k @ [acc],
                pattern_type = ''fan_in'', risk_score = 85,
                detected_at = Some (ts (fan_in_sorted sp txns acc ! k))\<rparr>] \<and>
            fan_in_flags_of res acc =
              [\<lparr>account_id = acc, suspicion_score = 80, detected_patterns = [''fan_in''],
                ring_id = ''SMURF_IN_'' @ acc\<rparr>]"
    if "k < length (fan_in_sorted sp txns acc)"
      "FAN_IN_THRESHOLD \<le> length (parties_in (fan_in_sorted sp txns acc) k)"
      "\<forall>j<k. length (parties_in (fan_in_sorted sp txns acc) j) < FAN_IN_THRESHOLD"
  proof -
    from that have "k < length ?Ei" by (simp add: fan_in_sorted_def)
    from fan_in_record_Some [OF this that(2,3) [unfolded fan_in_sorted_def], of acc]
    show ?thesis by (simp add: pa fan_in_sorted_def)
  qed
  have in_none: "fan_in_rings_of res acc = [] \<and> fan_in_flags_of res acc = []"
    if "\<forall>i<length (fan_in_sorted sp txns acc).
              length (parties_in (fan_in_sorted sp txns acc) i) < FAN_IN_THRESHOLD"
  proof -
    from that have "\<forall>i<length ?Ei. length (parties_in (sort_key ts ?Ei) i) < FAN_IN_THRESHOLD"
      by (simp add: fan_in_sorted_def)
    from fan_in_record_None [OF this, of acc] show ?thesis by (simp add: pa)
  qed
  have in_few: "fan_in_rings_of res acc = [] \<and> fan_in_flags_of res acc = []"
    if "card (party ` set ?Ei) < FAN_IN_THRESHOLD"
  proof (rule in_none, intro allI impI)
    fix i
    have "length (parties_in (fan_in_sorted sp txns acc) i) \<le> card (party ` set (fan_in_sorted sp txns acc))"
      by (rule parties_in_le_distinct)
    with that show "length (parties_in (fan_in_sorted sp txns acc) i) < FAN_IN_THRESHOLD"
      by (simp add: fan_in_sorted_def)
  qed
  have out_hit: "fan_out_rings_of res acc =
              [\<lparr>ring_id = ''SMURF_OUT_'' @ acc,
                member_accounts = acc # parties_in (fan_out_sorted sp txns acc) k,
                pattern_type = ''fan_out'', risk_score = 85,
                detected_at = Some (ts (fan_out_sorted sp txns acc ! k))\<rparr>] \<and>
            fan_out_flags_of res acc =
              [\<lparr>account_id = acc, suspicion_score = 80, detected_patterns = [''fan_out''],
                ring_id = ''SMURF_OUT_'' @ acc\<rparr>]"
    if "k < length (fan_out_sorted sp txns acc)"
      "FAN_OUT_THRESHOLD \<le> length (parties_in (fan_out_sorted sp txns acc) k)"
      "\<forall>j<k. length (parties_in (fan_out_sorted sp txns acc) j) < FAN_OUT_THRESHOLD"
  proof -
    from that have "k < length ?Eo" by (simp add: fan_out_sorted_def)
    from fan_out_record_Some [OF this that(2,3) [unfolded fan_out_sorted_def], of acc]
    show ?thesis by (simp add: pa fan_out_sorted_def)
  qed
  have out_none: "fan_out_rings_of res acc = [] \<and> fan_out_flags_of res acc = []"
    if "\<forall>i<length (fan_out_sorted sp txns acc).
              length (parties_in (fan_out_sorted sp txns acc) i) < FAN_OUT_THRESHOLD"
  proof -
    from that have "\<forall>i<length ?Eo. length (parties_in (sort_key ts ?Eo) i) < FAN_OUT_THRESHOLD"
      by (simp add: fan_out_sorted_def)
    from fan_out_record_None [OF this, of acc] show ?thesis by (simp add: pa)
  qed
  have out_few: "fan_out_rings_of res acc = [] \<and> fan_out_flags_of res acc = []"
    if "card (party ` set ?Eo) < FAN_OUT_THRESHOLD"
  proof (rule out_none, intro allI impI)
    fix i
    have "length (parties_in (fan_out_sorted sp txns acc) i) \<le> card (party ` set (fan_out_sorted sp txns acc))"
      by (rule parties_in_le_distinct)
    with that show "length (parties_in (fan_out_sorted sp txns acc) i) < FAN_OUT_THRESHOLD"
      by (simp add: fan_out_sorted_def)
  qed
  from in_hit in_none in_few out_hit out_none out_few show ?thesis by blast
qed

lemma fan_batch_run: "\<exists>res. SmurfingDetector_run example_strptime fan_batch = Inr res"
  by (rule SmurfingDetector_run_returns) (simp add: fan_batch_def fan_txn_def user_ids_def)

theorem fan_flag_once_witness:
  "\<exists>res. SmurfingDetector_run example_strptime fan_batch = Inr res \<and>
     fan_in_rings_of res ''Aggregator'' =
       [\<lparr>ring_id = ''SMURF_IN_Aggregator'', member_accounts = user_ids @ [''Aggregator''],
         pattern_type = ''fan_in'', risk_score = 85, detected_at = Some 36000\<rparr>] \<and>
     fan_out_rings_of res ''Aggregator'' =
       [\<lparr>ring_id = ''SMURF_OUT_Aggregator'', member_accounts = ''Aggregator'' # user_ids,
         pattern_type = ''fan_out'', risk_score = 85, detected_at = Some 36000\<rparr>] \<and>
     length (fan_in_flags_of res ''Aggregator'') = 1 \<and>
     length (fan_out_flags_of res ''Aggregator'') = 1 \<and>
     fan_in_rings_of res ''User_0'' = [] \<and> fan_in_flags_of res ''User_0'' = [] \<and>
     fan_out_rings_of res ''User_0'' = [] \<and> fan_out_flags_of res ''User_0'' = []"
proof -
  from fan_batch_run obtain res where run: "SmurfingDetector_run example_strptime fan_batch = Inr res" ..
  let ?Ei = "fan_in_sorted example_strptime fan_batch ''Aggregator''"
  let ?Eo = "fan_out_sorted example_strptime fan_batch ''Aggregator''"
  have i1: "9 < length ?Ei" by code_simp
  have i2: "FAN_IN_THRESHOLD \<le> length (parties_in ?Ei 9)" by code_simp
  have i3: "\<forall>j<9. length (parties_in ?Ei j) < FAN_IN_THRESHOLD"
  proof (intro allI impI)
    fix j :: nat assume "j < 9"
    with parties_in_le_index [of ?Ei j] show "length (parties_in ?Ei j) < FAN_IN_THRESHOLD"
      by (simp add: FAN_IN_THRESHOLD_def)
  qed
  have i4: "parties_in ?Ei 9 = user_ids" by code_simp
  have i5: "ts (?Ei ! 9) = 36000" by code_simp
  have o1: "9 < length ?Eo" by code_simp
  have o2: "FAN_OUT_THRESHOLD \<le> length (parties_in ?Eo 9)" by code_simp
  have o3: "\<forall>j<9. length (parties_in ?Eo j) < FAN_OUT_THRESHOLD"
  proof (intro allI impI)
    fix j :: nat assume "j < 9"
    with parties_in_le_index [of ?Eo j] show "length (parties_in ?Eo j) < FAN_OUT_THRESHOLD"
      by (simp add: FAN_OUT_THRESHOLD_def)
  qed
  have o4: "parties_in ?Eo 9 = user_ids" by code_simp
  have o5: "ts (?Eo ! 9) = 36000" by code_simp
  have u1: "card (party ` set (fan_in_entries example_strptime fan_batch ''User_0'')) < FAN_IN_THRESHOLD"
    by code_simp
  have u2: "card (party ` set (fan_out_entries example_strptime fan_batch ''User_0'')) < FAN_OUT_THRESHOLD"
    by code_simp
  from fan_flag_once [OF run, of 9 "''Aggregator''"] i1 i2 i3 i4 i5 o1 o2 o3 o4 o5
  have agg: "fan_in_rings_of res ''Aggregator'' =
       [\<lparr>ring_id = ''SMURF_IN_Aggregator'', member_accounts = user_ids @ [''Aggregator''],
         pattern_type = ''fan_in'', risk_score = 85, detected_at = Some 36000\<rparr>]"
    "fan_out_rings_of res ''Aggregator'' =
       [\<lparr>ring_id = ''SMURF_OUT_Aggregator'', member_accounts = ''Aggregator'' # user_ids,
         pattern_type = ''fan_out'', risk_score = 85, detected_at = Some 36000\<rparr>]"
    "length (fan_in_flags_of res ''Aggregator'') = 1"
    "length (fan_out_flags_of res ''Aggregator'') = 1"
    by simp_all
  from fan_flag_once [OF run, of 0 "''User_0''"] u1 u2
  have usr: "fan_in_rings_of res ''User_0'' = [] \<and> fan_in_flags_of res ''User_0'' = [] \<and>
     fan_out_rings_of res ''User_0'' = [] \<and> fan_out_flags_of res ''User_0'' = []"
    by blast
  from run agg usr show ?thesis by blast
qed

section \<open>Timestamps and amounts in the smurfing detector\<close>

text \<open>
  Claim C10. In the smurfing detector a transaction whose timestamp is missing or
  unparseable (\<open>parse_ts\<close> gives \<open>None\<close>) is excluded from fan detection: a run that
  returns gives the same result on the batch without those transactions, and an account
  all of whose transactions lack a parseable timestamp has no fan_in and no fan_out
  record and is a member of no ring, however many counterparties it has.
\<close>

theorem null_timestamp_excluded:
  assumes run: "SmurfingDetector_run sp txns = Inr res"
  shows "SmurfingDetector_run sp (filter (\<lambda>t. parse_ts sp (timestamp t) \<noteq> None) txns) = Inr res \<and>
         ((\<forall>t\<in>set txns. sender_id t = Some acc \<or> receiver_id t = Some acc \<longrightarrow>
              parse_ts sp (timestamp t) = None) \<longrightarrow>
          acc \<notin> account_id ` set (suspicious_accounts res) \<and>
          (\<forall>r\<in>set (fraud_rings res). acc \<notin> set (member_accounts r)))"
proof -
  from run obtain x where g: "group_txns sp txns [] [] = Inr x"
    by (auto simp: SmurfingDetector_run_def split: sum.splits)
  from group_txns_filter_ts [OF g] g run
  have first: "SmurfingDetector_run sp (filter (\<lambda>t. parse_ts sp (timestamp t) \<noteq> None) txns) = Inr res"
    by (simp add: SmurfingDetector_run_def)
  have second: "acc \<notin> account_id ` set (suspicious_accounts res) \<and>
          (\<forall>r\<in>set (fraud_rings res). acc \<notin> set (member_accounts r))"
    if h: "\<forall>t\<in>set txns. sender_id t = Some acc \<or> receiver_id t = Some acc \<longrightarrow>
              parse_ts sp (timestamp t) = None"
  proof -
    have no: "\<not> (\<exists>t\<in>set txns. fan_valid sp t \<and> (sender_id t = Some acc \<or> receiver_id t = Some acc))"
      using h by (auto simp: fan_valid_def)
    have "acc \<notin> account_id ` set (suspicious_accounts res)"
    proof
      assume "acc \<in> account_id ` set (suspicious_accounts res)"
      then obtain a where "a \<in> set (suspicious_accounts res)" "account_id a = acc" by auto
      with run_outputs(1) [OF run, of a] no show False by auto
    qed
    moreover have "acc \<notin> set (member_accounts r)" if "r \<in> set (fraud_rings res)" for r
    proof
      assume "acc \<in> set (member_accounts r)"
      with run_outputs(2) [OF run that] no show False by auto
    qed
    ultimately show ?thesis by blast
  qed
  from first second show ?thesis by blast
qed

theorem null_timestamp_excluded_witness:
  "\<exists>res. SmurfingDetector_run example_strptime null_ts_batch = Inr res \<and>
     (\<forall>t\<in>set null_ts_batch. sender_id t = Some ''Aggregator'' \<or> receiver_id t = Some ''Aggregator'' \<longrightarrow>
          parse_ts example_strptime (timestamp t) = None) \<and>
     card (sender_id ` set null_ts_batch) = 10 \<and>
     SmurfingDetector_run example_strptime
        (filter (\<lambda>t. parse_ts example_strptime (timestamp t) \<noteq> None) null_ts_batch) = Inr res \<and>
     ''Aggregator'' \<notin> account_id ` set (suspicious_accounts res) \<and>
     (\<forall>r\<in>set (fraud_rings res). ''Aggregator'' \<notin> set (member_accounts r))"
proof -
  have "\<forall>t\<in>set null_ts_batch. amount t \<noteq> AmountUnparseable"
    by (simp add: null_ts_batch_def user_ids_def)
  from SmurfingDetector_run_returns [OF this]
  obtain res where run: "SmurfingDetector_run example_strptime null_ts_batch = Inr res" ..
  have h: "\<forall>t\<in>set null_ts_batch. sender_id t = Some ''Aggregator'' \<or> receiver_id t = Some ''Aggregator'' \<longrightarrow>
          parse_ts example_strptime (timestamp t) = None"
    by code_simp
  have c: "card (sender_id ` set null_ts_batch) = 10" by code_simp
  from null_timestamp_excluded [OF run, of "''Aggregator''"] h run c show ?thesis by blast
qed

text \<open>
  Claim C5 on the smurfing engine. \<open>safe_float\<close> of the circular engine coerces an
  unparseable amount to 0, but \<open>SmurfingDetector.run\<close> calls \<open>float\<close> unguarded: one
  unparseable amount anywhere in the batch makes the whole run raise ValueError.
\<close>

theorem unparseable_amount_raises:
  "safe_float AmountUnparseable = 0 \<and>
   SmurfingDetector_run example_strptime bad_amount_batch = Inl ValueError \<and>
   (\<exists>res. SmurfingDetector_run example_strptime
             (map (\<lambda>t. t\<lparr>amount := AmountNumber (safe_float (amount t))\<rparr>) bad_amount_batch) = Inr res)"
proof -
  have "safe_float AmountUnparseable = 0" by (simp add: safe_float_def py_float_def)
  moreover have "SmurfingDetector_run example_strptime bad_amount_batch = Inl ValueError"
    by (rule SmurfingDetector_run_raises) (simp add: bad_amount_batch_def fan_txn_def)
  moreover have "\<exists>res. SmurfingDetector_run example_strptime
             (map (\<lambda>t. t\<lparr>amount := AmountNumber (safe_float (amount t))\<rparr>) bad_amount_batch) = Inr res"
    by (rule SmurfingDetector_run_returns) (simp add: bad_amount_batch_def fan_txn_def)
  ultimately show ?thesis by blast
qed

section \<open>Transaction counts and state of the shell detector\<close>

lemma map_of_dict_incr:
  "map_of (dict_incr k d) = (map_of d)(k \<mapsto> count_of d k + 1)"
  by (induction d) (auto simp: count_of_def fun_eq_iff)

lemma count_of_dict_incr:
  "count_of (dict_incr k d) n = (if n = k then count_of d k + 1 else count_of d n)"
  by (simp add: count_of_def map_of_dict_incr)

lemma keys_dict_incr: "fst ` set (dict_incr k d) = insert k (fst ` set d)"
proof (induction d)
  case Nil
  show ?case by simp
next
  case (Cons kv d)
  obtain k' c where kv: "kv = (k', c)" by (cases kv)
  show ?case
  proof (cases "k' = k")
    case True
    with kv show ?thesis by auto
  next
    case False
    with kv Cons.IH show ?thesis by (simp add: insert_commute)
  qed
qed

lemma distinct_dict_incr:
  "distinct (map fst d) \<Longrightarrow> distinct (map fst (dict_incr k d))"
proof (induction d)
  case Nil
  show ?case by simp
next
  case (Cons kv d)
  obtain k' c where kv: "kv = (k', c)" by (cases kv)
  show ?case
  proof (cases "k' = k")
    case True
    with kv Cons.prems show ?thesis by simp
  next
    case False
    with kv Cons show ?thesis by (simp add: keys_dict_incr)
  qed
qed

lemma shell_build_counts:
  assumes "shell_build txns G cnt = (G', cnt')" and "distinct (map fst cnt)"
  shows "distinct (map fst cnt') \<and> (\<forall>n. count_of cnt' n = count_of cnt n + txn_count txns n)"
  using assms
proof (induction txns arbitrary: G cnt)
  case Nil
  then show ?case by (simp add: txn_count_def)
next
  case (Cons t rest)
  show ?case
  proof (cases "truthy (sender_id t) \<and> truthy (receiver_id t)")
    case False
    with Cons.prems have "shell_build rest G cnt = (G', cnt')" by (auto simp: Let_def)
    from Cons.IH [OF this Cons.prems(2)] False show ?thesis
      by (auto simp: txn_count_def)
  next
    case True
    then obtain s r where sr: "sender_id t = Some s" "receiver_id t = Some r"
      by (auto simp: truthy_def split: option.splits)
    let ?cnt = "dict_incr r (dict_incr s cnt)"
    from Cons.prems True sr have "shell_build rest (add_edge s r G) ?cnt = (G', cnt')"
      by (simp add: Let_def)
    moreover have "distinct (map fst ?cnt)"
      by (intro distinct_dict_incr Cons.prems(2))
    ultimately have IH: "distinct (map fst cnt')"
      "\<And>n. count_of cnt' n = count_of ?cnt n + txn_count rest n"
      using Cons.IH by blast+
    have "count_of ?cnt n + txn_count rest n = count_of cnt n + txn_count (t # rest) n" for n
      using True sr by (auto simp: count_of_dict_incr txn_count_def)
    with IH show ?thesis by simp
  qed
qed

lemma shells_count:
  assumes "shell_build txns empty_graph [] = (G, cnt)"
    and "m \<in> set (map fst (filter (\<lambda>(node, count). 2 \<le> count \<and> count \<le> 3) cnt))"
  shows "2 \<le> txn_count txns m \<and> txn_count txns m \<le> 3"
proof -
  from shell_build_counts [OF assms(1)] have d: "distinct (map fst cnt)"
    and c: "\<And>n. count_of cnt n = txn_count txns n" by (simp_all add: count_of_def)
  from assms(2) obtain k where k: "(m, k) \<in> set cnt" "2 \<le> k" "k \<le> 3" by auto
  with d have "map_of cnt m = Some k" by simp
  then have "count_of cnt m = k" by (simp add: count_of_def)
  with c k show ?thesis by simp
qed

lemma find_path_Some:
  "find_path G ps = Some p \<Longrightarrow> p \<in> set ps \<and> 2 \<le> length p"
  by (induction ps) (auto split: if_splits)

lemma find_chain_Some:
  "find_chain asp G comp_sub component starts = Some p \<Longrightarrow>
   2 \<le> length p \<and> (\<exists>s\<in>set starts. p \<in> set (asp comp_sub s component))"
proof (induction starts)
  case Nil
  then show ?case by simp
next
  case (Cons s rest)
  show ?case
  proof (cases "find_path G (asp comp_sub s component)")
    case None
    with Cons show ?thesis by auto
  next
    case (Some q)
    with Cons.prems have "q = p" by simp
    with Some find_path_Some [of G "asp comp_sub s component" p] show ?thesis by auto
  qed
qed

lemma mark_members_inv:
  "shell_inv st \<Longrightarrow>
   shell_inv (mark_members rid ms st) \<and>
   detected_shells (mark_members rid ms st) = detected_shells st \<union> set ms \<and>
   sh_rings (mark_members rid ms st) = sh_rings st"
proof (induction ms arbitrary: st)
  case Nil
  then show ?case by simp
next
  case (Cons m ms)
  show ?case
  proof (cases "m \<in> detected_shells st")
    case True
    with Cons.IH [OF Cons.prems] show ?thesis by auto
  next
    case False
    let ?st = "st\<lparr>detected_shells := insert m (detected_shells st),
                 sh_suspicious := sh_suspicious st @
                   [\<lparr>account_id = m, suspicion_score = 75,
                     detected_patterns = [''shell_account''], ring_id = rid\<rparr>]\<rparr>"
    from Cons.prems False have "shell_inv ?st" by (auto simp: shell_inv_def)
    from Cons.IH [OF this] False show ?thesis by auto
  qed
qed

lemma scan_components_inv:
  assumes "shell_inv st"
    and "\<forall>r\<in>set (sh_rings st). ring_ok (shells \<inter> detected_shells st) r"
    and "\<forall>c\<in>set comps. \<forall>s\<in>set c. \<forall>p\<in>set (asp (subgraph sg c) s c). set p \<subseteq> shells"
  shows "shell_inv (scan_components asp G sg comps st) \<and>
         (\<forall>r\<in>set (sh_rings (scan_components asp G sg comps st)).
            ring_ok (shells \<inter> detected_shells (scan_components asp G sg comps st)) r)"
  using assms
proof (induction comps arbitrary: st)
  case Nil
  then show ?case by simp
next
  case (Cons c comps)
  have rest: "\<forall>c\<in>set comps. \<forall>s\<in>set c. \<forall>p\<in>set (asp (subgraph sg c) s c). set p \<subseteq> shells"
    using Cons.prems(3) by simp
  let ?starts = "filter (\<lambda>n. in_degree G n > 0) c"
  show ?case
  proof (cases "2 \<le> length c")
    case False
    with Cons.IH [OF Cons.prems(1,2) rest] show ?thesis by simp
  next
    case True
    show ?thesis
    proof (cases "find_chain asp G (subgraph sg c) c ?starts")
      case None
      with True Cons.IH [OF Cons.prems(1,2) rest] show ?thesis by (simp add: Let_def)
    next
      case (Some p)
      let ?rid = "''SHELL_'' @ hd p"
      let ?ring = "\<lparr>ring_id = ?rid, member_accounts = p,
                               pattern_type = ''shell_network'', risk_score = 75,
                               detected_at = None\<rparr>"
      let ?st1 = "st\<lparr>sh_rings := sh_rings st @ [?ring]\<rparr>"
      let ?st2 = "mark_members ?rid p ?st1"
      from find_chain_Some [OF Some] obtain s where p2: "2 \<le> length p"
        and s: "s \<in> set c" "p \<in> set (asp (subgraph sg c) s c)" by auto
      with Cons.prems(3) have psub: "set p \<subseteq> shells" by auto
      from Cons.prems(1) have inv1: "shell_inv ?st1" by (simp add: shell_inv_def)
      from mark_members_inv [OF inv1, of ?rid p]
      have inv2: "shell_inv ?st2" and det: "detected_shells ?st2 = detected_shells st \<union> set p"
        and rings: "sh_rings ?st2 = sh_rings st @ [?ring]" by simp_all
      have "\<forall>r\<in>set (sh_rings ?st2). ring_ok (shells \<inter> detected_shells ?st2) r"
        using Cons.prems(2) p2 psub unfolding rings det
        by (auto simp: ring_ok_def)
      from Cons.IH [OF inv2 this rest] True Some show ?thesis by (simp add: Let_def)
    qed
  qed
qed

lemma nodes_subgraph: "set (nodes (subgraph G S)) = set (nodes G) \<inter> set S"
  by (auto simp: subgraph_def)

section \<open>Shell rings\<close>

lemma grow_within: "set c \<subseteq> set (nodes G) \<Longrightarrow> set (grow n G c) \<subseteq> set (nodes G)"
  by (induction n arbitrary: c) auto

lemma components_set:
  "set todo \<subseteq> set (nodes G) \<Longrightarrow> \<forall>c\<in>set (components n G todo). set c \<subseteq> set (nodes G)"
proof (induction n G todo rule: components.induct)
  case (1 G todo)
  show ?case by simp
next
  case (2 n G)
  show ?case by simp
next
  case (3 n G v todo)
  let ?c = "grow (length (nodes G)) G [v]"
  from "3.prems" have v: "set ?c \<subseteq> set (nodes G)" by (intro grow_within) simp
  have "set (filter (\<lambda>u. u \<notin> set ?c) todo) \<subseteq> set (nodes G)" using "3.prems" by auto
  from "3.IH" [OF refl this] v show ?case by (simp add: Let_def)
qed

lemma ref_components_within: "components_within ref_weakly_connected_components"
  unfolding components_within_def ref_weakly_connected_components_def
  using components_set by blast

lemma extend_paths_within:
  "set p \<subseteq> set (nodes G) \<Longrightarrow> \<forall>q\<in>set (extend_paths n G p). set q \<subseteq> set (nodes G)"
proof (induction n arbitrary: p)
  case 0
  show ?case by simp
next
  case (Suc n)
  show ?case
  proof
    fix q assume "q \<in> set (extend_paths (Suc n) G p)"
    then obtain w where w: "w \<in> set (nodes G)" "w \<notin> set p"
      and q: "q = rev (w # p) \<or> q \<in> set (extend_paths n G (w # p))"
      by (auto split: if_splits)
    from w Suc.prems have wp: "set (w # p) \<subseteq> set (nodes G)" by simp
    from q show "set q \<subseteq> set (nodes G)"
    proof
      assume "q = rev (w # p)"
      with wp show ?thesis by simp
    next
      assume "q \<in> set (extend_paths n G (w # p))"
      with Suc.IH [OF wp] show ?thesis by blast
    qed
  qed
qed

lemma ref_paths_within: "paths_within ref_all_simple_paths"
  unfolding paths_within_def
proof (intro allI impI ballI)
  fix G s t p
  assume s: "s \<in> set (nodes G)" and p: "p \<in> set (ref_all_simple_paths G s t)"
  from s have "set [s] \<subseteq> set (nodes G)" by simp
  from extend_paths_within [OF this, of "length (nodes G)"] p
  show "set p \<subseteq> set (nodes G)" by (simp add: ref_all_simple_paths_def)
qed

lemma filter_key_single:
  "distinct (map f xs) \<Longrightarrow> m \<in> f ` set xs \<Longrightarrow> \<exists>a\<in>set xs. filter (\<lambda>a. f a = m) xs = [a]"
proof (induction xs)
  case Nil
  then show ?case by simp
next
  case (Cons x xs)
  show ?case
  proof (cases "f x = m")
    case True
    with Cons.prems have "m \<notin> f ` set xs" by auto
    then have "filter (\<lambda>a. f a = m) xs = []" by (auto simp: filter_empty_conv)
    with True show ?thesis by simp
  next
    case False
    with Cons.prems have "distinct (map f xs)" "m \<in> f ` set xs" by auto
    from Cons.IH [OF this] False show ?thesis by auto
  qed
qed

text \<open>
  Claim C8. The graph library returning components and paths made of nodes of the graph it
  is given, every ring of the shell detector has risk score 75, no detection time, pattern
  shell_network and at least two members; every member has a transaction count of 2 or 3
  over the batch; and every member has exactly one suspicious-account record, with score
  75 and the single tag shell_account.
\<close>

theorem shell_rings:
  assumes W: "components_within weakly_connected_components"
    and P: "paths_within all_simple_paths"
    and r: "r \<in> set (fraud_rings (ShellNetworkDetector_run weakly_connected_components all_simple_paths txns))"
  shows "risk_score r = 75 \<and> detected_at r = None \<and> pattern_type r = ''shell_network'' \<and>
         2 \<le> length (member_accounts r) \<and>
         (\<forall>m\<in>set (member_accounts r).
            2 \<le> txn_count txns m \<and> txn_count txns m \<le> 3 \<and>
            (\<exists>a. filter (\<lambda>a. account_id a = m)
                    (suspicious_accounts (ShellNetworkDetector_run weakly_connected_components all_simple_paths txns)) = [a] \<and>
                 suspicion_score a = 75 \<and> detected_patterns a = [''shell_account'']))"
proof -
  obtain G cnt where b: "shell_build txns empty_graph [] = (G, cnt)" by (cases "shell_build txns empty_graph []")
  define shells where "shells = map fst (filter (\<lambda>(node, count). 2 \<le> count \<and> count \<le> 3) cnt)"
  define sg where "sg = subgraph G shells"
  define st0 where "st0 = \<lparr>detected_shells = {}, sh_suspicious = [], sh_rings = []\<rparr>"
  define st where "st = scan_components all_simple_paths G sg (weakly_connected_components sg) st0"
  let ?res = "ShellNetworkDetector_run weakly_connected_components all_simple_paths txns"
  have res: "?res = (if shells = [] then \<lparr>suspicious_accounts = [], fraud_rings = []\<rparr>
                     else \<lparr>suspicious_accounts = sh_suspicious st, fraud_rings = sh_rings st\<rparr>)"
    by (simp add: ShellNetworkDetector_run_def b shells_def sg_def st_def st0_def Let_def)
  from r res have ne: "shells \<noteq> []" by (auto split: if_splits)
  with res have sus: "suspicious_accounts ?res = sh_suspicious st" and fr: "fraud_rings ?res = sh_rings st"
    by simp_all
  have inv0: "shell_inv st0" by (simp add: shell_inv_def st0_def)
  have rings0: "\<forall>r\<in>set (sh_rings st0). ring_ok (set shells \<inter> detected_shells st0) r"
    by (simp add: st0_def)
  have paths: "\<forall>c\<in>set (weakly_connected_components sg). \<forall>s\<in>set c.
                 \<forall>p\<in>set (all_simple_paths (subgraph sg c) s c). set p \<subseteq> set shells"
  proof (intro ballI)
    fix c s p
    assume c: "c \<in> set (weakly_connected_components sg)" and s: "s \<in> set c"
      and p: "p \<in> set (all_simple_paths (subgraph sg c) s c)"
    from W c have "set c \<subseteq> set (nodes sg)" by (auto simp: components_within_def)
    with s have "s \<in> set (nodes (subgraph sg c))" by (auto simp: nodes_subgraph)
    with P p have "set p \<subseteq> set (nodes (subgraph sg c))" by (auto simp: paths_within_def)
    then show "set p \<subseteq> set shells" by (auto simp: nodes_subgraph sg_def)
  qed
  from scan_components_inv [where shells = "set shells" and asp = all_simple_paths and G = G, OF inv0 rings0 paths]
  have inv: "shell_inv st" and ok: "\<forall>r\<in>set (sh_rings st). ring_ok (set shells \<inter> detected_shells st) r"
    unfolding st_def by simp_all
  from r fr ok have rk: "ring_ok (set shells \<inter> detected_shells st) r" by simp
  have mem: "2 \<le> txn_count txns m \<and> txn_count txns m \<le> 3 \<and>
            (\<exists>a. filter (\<lambda>a. account_id a = m) (suspicious_accounts ?res) = [a] \<and>
                 suspicion_score a = 75 \<and> detected_patterns a = [''shell_account''])"
    if "m \<in> set (member_accounts r)" for m
  proof -
    from that rk have ms: "m \<in> set shells" and md: "m \<in> detected_shells st"
      by (auto simp: ring_ok_def)
    from shells_count [OF b] ms have cnt: "2 \<le> txn_count txns m \<and> txn_count txns m \<le> 3"
      by (simp add: shells_def)
    from inv md have d: "distinct (map account_id (sh_suspicious st))"
      and mi: "m \<in> account_id ` set (sh_suspicious st)"
      and sh: "\<forall>a\<in>set (sh_suspicious st). suspicion_score a = 75 \<and> detected_patterns a = [''shell_account'']"
      by (simp_all add: shell_inv_def)
    from filter_key_single [OF d mi] obtain a' where "a' \<in> set (sh_suspicious st)"
      and f: "filter (\<lambda>a. account_id a = m) (sh_suspicious st) = [a']" by blast
    with sh f sus cnt show ?thesis by auto
  qed
  from rk mem show ?thesis by (simp add: ring_ok_def)
qed

theorem shell_rings_witness:
  "components_within ref_weakly_connected_components \<and> paths_within ref_all_simple_paths \<and>
   \<lparr>ring_id = ''SHELL_Shell1'', member_accounts = [''Shell1'', ''Shell2''],
     pattern_type = ''shell_network'', risk_score = 75, detected_at = None\<rparr>
     \<in> set (fraud_rings (ShellNetworkDetector_run ref_weakly_connected_components ref_all_simple_paths shell_batch)) \<and>
   txn_count shell_batch ''Shell1'' = 2 \<and> txn_count shell_batch ''Shell2'' = 2 \<and>
   length (filter (\<lambda>a. account_id a = ''Shell1'')
      (suspicious_accounts (ShellNetworkDetector_run ref_weakly_connected_components ref_all_simple_paths shell_batch))) = 1"
proof -
  let ?r = "\<lparr>ring_id = ''SHELL_Shell1'', member_accounts = [''Shell1'', ''Shell2''],
     pattern_type = ''shell_network'', risk_score = 75, detected_at = None\<rparr>"
  have r: "?r \<in> set (fraud_rings (ShellNetworkDetector_run ref_weakly_connected_components ref_all_simple_paths shell_batch))"
    by code_simp
  have c: "txn_count shell_batch ''Shell1'' = 2" "txn_count shell_batch ''Shell2'' = 2"
    by code_simp+
  from shell_rings [OF ref_components_within ref_paths_within r]
  have "length (filter (\<lambda>a. account_id a = ''Shell1'')
      (suspicious_accounts (ShellNetworkDetector_run ref_weakly_connected_components ref_all_simple_paths shell_batch))) = 1"
    by auto
  with r c ref_components_within ref_paths_within show ?thesis by blast
qed

section \<open>Cycle enumeration\<close>

lemma set_first_occurrences: "set (first_occurrences xs) = set xs"
  by (induction xs rule: first_occurrences.induct) auto

lemma distinct_first_occurrences: "distinct (first_occurrences xs)"
  by (induction xs rule: first_occurrences.induct) (auto simp: set_first_occurrences)

lemma add_new_Cons:
  "add_new (x # xs) cs = add_new xs (if x \<in> set cs then cs else cs @ [x])"
  by (simp add: add_new_def)

lemma filter_not_in_snoc:
  "filter (\<lambda>y. y \<notin> set (cs @ [x])) xs = filter (\<lambda>y. y \<noteq> x) (filter (\<lambda>y. y \<notin> set cs) xs)"
  by (induction xs) simp_all

lemma add_new_first_occurrences:
  "add_new xs cs = cs @ first_occurrences (filter (\<lambda>x. x \<notin> set cs) xs)"
proof (induction xs arbitrary: cs)
  case Nil
  show ?case by (simp add: add_new_def)
next
  case (Cons x xs)
  show ?case
  proof (cases "x \<in> set cs")
    case True
    then have "add_new (x # xs) cs = add_new xs cs" by (simp add: add_new_Cons)
    also have "\<dots> = cs @ first_occurrences (filter (\<lambda>x. x \<notin> set cs) xs)" by (rule Cons.IH)
    also have "\<dots> = cs @ first_occurrences (filter (\<lambda>x. x \<notin> set cs) (x # xs))"
      using True by simp
    finally show ?thesis .
  next
    case False
    then have "add_new (x # xs) cs = add_new xs (cs @ [x])" by (simp add: add_new_Cons)
    also have "\<dots> = (cs @ [x]) @ first_occurrences (filter (\<lambda>y. y \<notin> set (cs @ [x])) xs)"
      by (rule Cons.IH)
    also have "\<dots> = cs @ x # first_occurrences (filter (\<lambda>y. y \<noteq> x) (filter (\<lambda>y. y \<notin> set cs) xs))"
      by (simp only: filter_not_in_snoc append_assoc append_Cons append_Nil)
    also have "\<dots> = cs @ first_occurrences (x # filter (\<lambda>y. y \<notin> set cs) xs)"
      by (simp only: first_occurrences.simps)
    also have "\<dots> = cs @ first_occurrences (filter (\<lambda>y. y \<notin> set cs) (x # xs))"
      using False by (simp del: filter_filter first_occurrences.simps)
    finally show ?thesis .
  qed
qed

lemma add_new_append: "add_new (xs @ ys) cs = add_new ys (add_new xs cs)"
  by (simp add: add_new_def)

lemma qualifying_normalize:
  assumes "qualifying c"
  shows "normalize_cycle c = Inr (canonical_form c)"
proof -
  from assms have "c \<noteq> []" by (auto simp: qualifying_def MIN_CYCLE_LEN_def)
  from normalize_cycle_split [OF this] show ?thesis by (simp add: canonical_form_def)
qed

lemma collect_cycles_skip:
  assumes "\<not> qualifying c"
  shows "collect_cycles (c # raw) (seen, cs) = collect_cycles raw (seen, cs)"
proof -
  from assms have "\<not> (MIN_CYCLE_LEN \<le> length c \<and> length c \<le> MAX_CYCLE_LEN)"
    by (simp add: qualifying_def)
  then show ?thesis by (simp only: collect_cycles.simps if_False)
qed

lemma collect_cycles_take:
  assumes "qualifying c"
  shows "collect_cycles (c # raw) (seen, cs) =
         (if canonical_form c \<notin> seen
          then collect_cycles raw (insert (canonical_form c) seen, cs @ [canonical_form c])
          else collect_cycles raw (seen, cs))"
proof -
  from assms have q: "MIN_CYCLE_LEN \<le> length c \<and> length c \<le> MAX_CYCLE_LEN"
    by (simp add: qualifying_def)
  show ?thesis
    by (simp only: collect_cycles.simps q if_True simp_thms qualifying_normalize [OF assms] sum.case)
qed

lemma collect_cycles_spec:
  "collect_cycles raw (set cs, cs) =
     Inr (set (add_new (map canonical_form (filter qualifying raw)) cs),
          add_new (map canonical_form (filter qualifying raw)) cs)"
proof (induction raw arbitrary: cs)
  case Nil
  show ?case by (simp add: add_new_def)
next
  case (Cons c raw)
  let ?rest = "map canonical_form (filter qualifying raw)"
  show ?case
  proof (cases "qualifying c")
    case False
    then have "collect_cycles (c # raw) (set cs, cs) = collect_cycles raw (set cs, cs)"
      by (rule collect_cycles_skip)
    also have "\<dots> = Inr (set (add_new ?rest cs), add_new ?rest cs)" by (rule Cons.IH)
    also have "map canonical_form (filter qualifying raw) = map canonical_form (filter qualifying (c # raw))"
      using False by simp
    finally show ?thesis .
  next
    case True
    then have m: "map canonical_form (filter qualifying (c # raw)) = canonical_form c # ?rest"
      by simp
    show ?thesis
    proof (cases "canonical_form c \<in> set cs")
      case in_seen: True
      then have "collect_cycles (c # raw) (set cs, cs) = collect_cycles raw (set cs, cs)"
        by (simp only: collect_cycles_take [OF True] simp_thms if_False)
      also have "\<dots> = Inr (set (add_new ?rest cs), add_new ?rest cs)" by (rule Cons.IH)
      also have "add_new ?rest cs = add_new (canonical_form c # ?rest) cs"
        using in_seen by (simp only: add_new_Cons if_True)
      finally show ?thesis by (simp only: m)
    next
      case new: False
      let ?cs = "cs @ [canonical_form c]"
      have s: "insert (canonical_form c) (set cs) = set ?cs" by simp
      from new have "collect_cycles (c # raw) (set cs, cs) = collect_cycles raw (set ?cs, ?cs)"
        by (simp only: collect_cycles_take [OF True] simp_thms if_True s)
      also have "\<dots> = Inr (set (add_new ?rest ?cs), add_new ?rest ?cs)" by (rule Cons.IH)
      also have "add_new ?rest ?cs = add_new (canonical_form c # ?rest) cs"
        using new by (simp only: add_new_Cons if_False)
      finally show ?thesis by (simp only: m)
    qed
  qed
qed

lemma scan_sccs_spec:
  "scan_sccs sc G comps (set cs, cs) =
     (let out = add_new (map canonical_form (filter qualifying
                  (concat (map (\<lambda>scc. sc (subgraph G scc) MAX_CYCLE_LEN)
                     (filter (\<lambda>scc. \<not> length scc < MIN_CYCLE_LEN) comps))))) cs
      in Inr (set out, out))"
proof (induction comps arbitrary: cs)
  case Nil
  show ?case by (simp add: add_new_def)
next
  case (Cons scc comps)
  show ?case
  proof (cases "length scc < MIN_CYCLE_LEN")
    case True
    with Cons.IH [of cs] show ?thesis by simp
  next
    case False
    let ?new = "add_new (map canonical_form (filter qualifying (sc (subgraph G scc) MAX_CYCLE_LEN))) cs"
    from False collect_cycles_spec [of "sc (subgraph G scc) MAX_CYCLE_LEN" cs] Cons.IH [of ?new]
    show ?thesis by (simp add: Let_def add_new_append)
  qed
qed

lemma detect_cycles_spec:
  "detect_cycles sccf sc st =
     Inr (first_occurrences (map canonical_form (filter qualifying
            (raw_cycles sccf sc (prune (structure_of st))))))"
proof -
  have "({}, []) = (set ([] :: account list list), [])" by simp
  then show ?thesis
    unfolding detect_cycles_def raw_cycles_def
    using scan_sccs_spec [of sc "prune (structure_of st)" "sccf (prune (structure_of st))" "[]"]
    by (simp add: Let_def add_new_first_occurrences)
qed

lemma canonical_form_props:
  assumes "qualifying c"
  shows "length (canonical_form c) = length c" and "set (canonical_form c) = set c"
    and "distinct c \<Longrightarrow> distinct (canonical_form c)"
    and "normalize_cycle (canonical_form c) = Inr (canonical_form c)"
proof -
  note n = qualifying_normalize [OF assms]
  from assms have ne: "c \<noteq> []" by (auto simp: qualifying_def MIN_CYCLE_LEN_def)
  let ?P = "\<lambda>y. y \<noteq> Min (set c)"
  from n normalize_cycle_split [OF ne]
  have cf: "canonical_form c = dropWhile ?P c @ takeWhile ?P c" by simp
  have "length (dropWhile ?P c @ takeWhile ?P c) = length (takeWhile ?P c @ dropWhile ?P c)"
    by (simp only: length_append add.commute)
  then show "length (canonical_form c) = length c" by (simp only: cf takeWhile_dropWhile_id)
  show "set (canonical_form c) = set c" by (rule normalize_cycle_set [OF n])
  show "normalize_cycle (canonical_form c) = Inr (canonical_form c)"
    by (rule normalize_cycle_idem [OF n])
  show "distinct (canonical_form c)" if "distinct c"
  proof -
    from that have "distinct (takeWhile ?P c @ dropWhile ?P c)" by (simp only: takeWhile_dropWhile_id)
    then have "distinct (dropWhile ?P c @ takeWhile ?P c)" by (simp only: distinct_append) blast
    then show ?thesis by (simp only: cf)
  qed
qed

lemma same_ring_iff: "same_ring c d \<longleftrightarrow> c \<noteq> [] \<and> (\<exists>k. d = rotate k c)"
proof
  assume "same_ring c d"
  then obtain k where "k < length c" "d = rotate k c"
    by (auto simp: same_ring_def rotations_def)
  then show "c \<noteq> [] \<and> (\<exists>k. d = rotate k c)" by auto
next
  assume a: "c \<noteq> [] \<and> (\<exists>k. d = rotate k c)"
  then obtain k where k: "d = rotate k c" by blast
  from a have "k mod length c < length c" by simp
  moreover have "d = rotate (k mod length c) c" using k by (simp add: rotate_conv_mod [symmetric])
  ultimately show "same_ring c d" by (auto simp: same_ring_def rotations_def)
qed

lemma same_ring_sym:
  assumes "same_ring c d" shows "same_ring d c"
proof -
  from assms obtain k where c: "c \<noteq> []" and k: "d = rotate k c" by (auto simp: same_ring_iff)
  let ?n = "length c"
  have "d = rotate (k mod ?n) c" using k by (simp add: rotate_conv_mod [symmetric])
  then have "rotate (?n - k mod ?n) d = rotate (?n - k mod ?n + k mod ?n) c"
    by (simp only: rotate_rotate)
  also have "?n - k mod ?n + k mod ?n = ?n" using c by (simp add: less_imp_le)
  finally have "rotate (?n - k mod ?n) d = c" by simp
  moreover from c k have "d \<noteq> []" by simp
  ultimately show ?thesis unfolding same_ring_iff by metis
qed

lemma same_ring_trans:
  assumes "same_ring c d" and "same_ring d e" shows "same_ring c e"
proof -
  from assms obtain k l where "c \<noteq> []" "d = rotate k c" "e = rotate l d"
    by (auto simp: same_ring_iff)
  then have "c \<noteq> [] \<and> e = rotate (l + k) c" by (simp add: rotate_rotate)
  then show ?thesis unfolding same_ring_iff by blast
qed

lemma same_ring_normalize:
  assumes "same_ring c d" and "distinct c"
  shows "normalize_cycle d = normalize_cycle c"
proof -
  from assms(1) obtain k where "c \<noteq> []" "d = rotate k c" by (auto simp: same_ring_iff)
  with normalize_cycle_rotate [OF assms(2), of k] show ?thesis by simp
qed

lemma same_ring_canonical_form:
  assumes "c \<noteq> []" shows "same_ring c (canonical_form c)"
proof -
  let ?P = "\<lambda>y. y \<noteq> Min (set c)"
  let ?k = "length (takeWhile ?P c)"
  have m: "Min (set c) \<in> set c" using assms by (intro Min_in) auto
  have "?k \<le> length c" by (rule length_takeWhile_le)
  moreover have "?k \<noteq> length c"
  proof
    assume "?k = length c"
    then have "takeWhile ?P c = c" by (metis takeWhile_eq_take take_all order_refl)
    then have "\<forall>y\<in>set c. ?P y" by (metis set_takeWhileD)
    with m show False by blast
  qed
  ultimately have lt: "?k < length c" by simp
  have "canonical_form c = dropWhile ?P c @ takeWhile ?P c"
    using normalize_cycle_split [OF assms] by (simp add: canonical_form_def)
  also have "\<dots> = drop ?k c @ take ?k c"
    by (simp only: dropWhile_eq_drop takeWhile_eq_take [symmetric])
  also have "\<dots> = rotate ?k c" using lt by (simp add: rotate_drop_take)
  finally show ?thesis using assms unfolding same_ring_iff by blast
qed

lemma hd_canonical_form:
  assumes "c \<noteq> []" shows "hd (canonical_form c) = Min (set c)"
proof -
  let ?P = "\<lambda>y. y \<noteq> Min (set c)"
  have m: "Min (set c) \<in> set c" using assms by (intro Min_in) auto
  then have ne: "dropWhile ?P c \<noteq> []" by (simp add: dropWhile_eq_Nil_conv)
  have "canonical_form c = dropWhile ?P c @ takeWhile ?P c"
    using normalize_cycle_split [OF assms] by (simp add: canonical_form_def)
  then have "hd (canonical_form c) = hd (dropWhile ?P c)" using ne by simp
  moreover have "\<not> ?P (hd (dropWhile ?P c))" using ne by (rule hd_dropWhile)
  ultimately show ?thesis by simp
qed

lemma set_first_discoveries: "set (first_discoveries cs) \<subseteq> set cs"
  by (induction cs rule: first_discoveries.induct) auto

lemma first_discoveries_canonical:
  assumes "\<forall>c\<in>set cs. c \<noteq> [] \<and> distinct c"
  shows "map canonical_form (first_discoveries cs) = first_occurrences (map canonical_form cs)"
  using assms
proof (induction cs rule: first_discoveries.induct)
  case 1
  show ?case by simp
next
  case (2 c cs)
  let ?rest = "filter (\<lambda>d. \<not> same_ring c d) cs"
  from "2.prems" have c: "c \<noteq> []" "distinct c" by simp_all
  have key: "same_ring c d \<longleftrightarrow> canonical_form d = canonical_form c" if "d \<in> set cs" for d
  proof
    assume "same_ring c d"
    from same_ring_normalize [OF this c(2)] show "canonical_form d = canonical_form c"
      by (simp add: canonical_form_def)
  next
    assume e: "canonical_form d = canonical_form c"
    from that "2.prems" have d: "d \<noteq> []" by simp
    from same_ring_canonical_form [OF d] have "same_ring (canonical_form c) d"
      unfolding e by (rule same_ring_sym)
    with same_ring_canonical_form [OF c(1)] show "same_ring c d" by (rule same_ring_trans)
  qed
  have "\<forall>d\<in>set ?rest. d \<noteq> [] \<and> distinct d" using "2.prems" by simp
  from "2.IH" [OF this]
  have "map canonical_form (first_discoveries (c # cs)) =
        canonical_form c # first_occurrences (map canonical_form ?rest)" by simp
  also have "map canonical_form ?rest =
        filter (\<lambda>y. y \<noteq> canonical_form c) (map canonical_form cs)"
    unfolding filter_map o_def using key by (intro arg_cong [where f = "map canonical_form"] filter_cong) auto
  finally show ?case by simp
qed

section \<open>Enumerated cycles and the frequency sub-score\<close>

lemma extend_paths_distinct:
  "distinct p \<Longrightarrow> \<forall>q\<in>set (extend_paths n G p). distinct q"
proof (induction n arbitrary: p)
  case 0
  show ?case by simp
next
  case (Suc n)
  show ?case
  proof
    fix q assume "q \<in> set (extend_paths (Suc n) G p)"
    then obtain w where w: "w \<notin> set p"
      and q: "q = rev (w # p) \<or> q \<in> set (extend_paths n G (w # p))"
      by (auto split: if_splits)
    from w Suc.prems have d: "distinct (w # p)" by simp
    from q show "distinct q"
    proof
      assume "q = rev (w # p)"
      with d show ?thesis by (simp only: distinct_rev)
    next
      assume "q \<in> set (extend_paths n G (w # p))"
      with Suc.IH [OF d] show ?thesis by blast
    qed
  qed
qed

lemma ref_cycles_simple: "cycles_simple ref_simple_cycles"
  unfolding cycles_simple_def
proof (intro allI ballI)
  fix G b c assume "c \<in> set (ref_simple_cycles G b)"
  then obtain v where "c = [v] \<or> c \<in> set (extend_paths (length (nodes G)) G [v])"
    by (auto simp: ref_simple_cycles_def)
  with extend_paths_distinct [of "[v]" "length (nodes G)" G] show "distinct c" by auto
qed

lemma all_starts_cycles_simple: "cycles_simple all_starts_simple_cycles"
  unfolding cycles_simple_def
proof (intro allI ballI)
  fix G b c assume "c \<in> set (all_starts_simple_cycles G b)"
  then obtain v where "c = [v] \<or> c \<in> set (extend_paths (length (nodes G)) G [v])"
    by (auto simp: all_starts_simple_cycles_def)
  with extend_paths_distinct [of "[v]" "length (nodes G)" G] show "distinct c" by auto
qed

lemma filter_eq_single: "distinct xs \<Longrightarrow> c \<in> set xs \<Longrightarrow> filter (\<lambda>d. d = c) xs = [c]"
proof (induction xs)
  case Nil
  then show ?case by simp
next
  case (Cons x xs)
  show ?case
  proof (cases "x = c")
    case True
    with Cons.prems have "c \<notin> set xs" by simp
    then have "filter (\<lambda>d. d = c) xs = []" by (auto simp: filter_empty_conv)
    with True show ?thesis by simp
  next
    case False
    with Cons show ?thesis by simp
  qed
qed

text \<open>
  Claim C3. Every cycle returned by \<open>detect_cycles\<close> has between 3 and 5 members and, the
  graph library yielding simple cycles, no repeated member, and starts at its smallest
  member; no two returned cycles have the same canonical form, and no two are rotations
  of one another; the returned list is the list of canonical forms of the cycles of
  qualifying length that the library yields, each kept at its first occurrence; taking
  the cycles of qualifying length that the library yields in their order, and keeping
  one only when it is a rotation of none before it, the returned list has, position by
  position, a rotation of each cycle kept; and every cycle of qualifying length that the
  library yields has exactly one rotation in the returned list.
\<close>

theorem detect_cycles_bounded_unique:
  assumes "cycles_simple simple_cycles"
  shows "\<exists>cycles. detect_cycles sccf simple_cycles st = Inr cycles \<and>
     (\<forall>c\<in>set cycles. 3 \<le> length c \<and> length c \<le> 5 \<and> distinct c \<and> hd c = Min (set c)) \<and>
     distinct (map normalize_cycle cycles) \<and>
     (\<forall>i<length cycles. \<forall>j<length cycles. i \<noteq> j \<longrightarrow> \<not> same_ring (cycles ! i) (cycles ! j)) \<and>
     cycles = first_occurrences (map canonical_form (filter qualifying
                (raw_cycles sccf simple_cycles (prune (structure_of st))))) \<and>
     list_all2 same_ring
       (first_discoveries (filter qualifying (raw_cycles sccf simple_cycles (prune (structure_of st)))))
       cycles \<and>
     (\<forall>r\<in>set (raw_cycles sccf simple_cycles (prune (structure_of st))).
        qualifying r \<longrightarrow> length (filter (same_ring r) cycles) = 1)"
proof -
  let ?raw = "raw_cycles sccf simple_cycles (prune (structure_of st))"
  let ?Q = "filter qualifying ?raw"
  let ?cycles = "first_occurrences (map canonical_form ?Q)"
  have d: "detect_cycles sccf simple_cycles st = Inr ?cycles" by (rule detect_cycles_spec)
  have raw: "distinct r \<and> r \<noteq> []" if "r \<in> set ?Q" for r
  proof -
    from that assms have "distinct r" by (auto simp: raw_cycles_def cycles_simple_def)
    moreover from that have "r \<noteq> []" by (auto simp: qualifying_def MIN_CYCLE_LEN_def)
    ultimately show ?thesis by simp
  qed
  have el: "3 \<le> length c \<and> length c \<le> 5 \<and> distinct c \<and> hd c = Min (set c) \<and>
            normalize_cycle c = Inr c"
    if "c \<in> set ?cycles" for c
  proof -
    from that obtain r where r: "r \<in> set ?Q" "qualifying r" "c = canonical_form r"
      by (auto simp: set_first_occurrences)
    from raw [OF r(1)] have dr: "distinct r" "r \<noteq> []" by simp_all
    from hd_canonical_form [OF dr(2)] canonical_form_props(2) [OF r(2)] r(3)
    have "hd c = Min (set c)" by simp
    with canonical_form_props [OF r(2)] r(2,3) dr(1) show ?thesis
      by (simp add: qualifying_def MIN_CYCLE_LEN_def MAX_CYCLE_LEN_def)
  qed
  have eq: "map normalize_cycle ?cycles = map Inr ?cycles"
    using el by (intro map_cong) simp_all
  have dc: "distinct ?cycles" by (rule distinct_first_occurrences)
  then have "distinct (map (Inr :: account list \<Rightarrow> py_error + account list) ?cycles)"
    by (simp add: distinct_map)
  then have dn: "distinct (map normalize_cycle ?cycles)" by (simp only: eq)
  have pw: "\<not> same_ring (?cycles ! i) (?cycles ! j)"
    if "i < length ?cycles" "j < length ?cycles" "i \<noteq> j" for i j
  proof
    assume sr: "same_ring (?cycles ! i) (?cycles ! j)"
    from that(1) have "?cycles ! i \<in> set ?cycles" by (rule nth_mem)
    from el [OF this] have "distinct (?cycles ! i)" by simp
    from same_ring_normalize [OF sr this]
    have ni: "normalize_cycle (?cycles ! j) = normalize_cycle (?cycles ! i)" .
    from nth_eq_iff_index_eq [OF dn, of i j] that
    have "normalize_cycle (?cycles ! i) \<noteq> normalize_cycle (?cycles ! j)" by simp
    with ni show False by simp
  qed
  have fd: "?cycles = map canonical_form (first_discoveries ?Q)"
    using raw by (intro first_discoveries_canonical [symmetric]) blast
  have "same_ring r (canonical_form r)" if "r \<in> set (first_discoveries ?Q)" for r
  proof -
    from that set_first_discoveries have "r \<in> set ?Q" by blast
    from raw [OF this] show ?thesis by (intro same_ring_canonical_form) simp
  qed
  then have "list_all2 same_ring (first_discoveries ?Q) (map canonical_form (first_discoveries ?Q))"
    by (simp add: list_all2_map2 list_all2_same)
  then have la: "list_all2 same_ring (first_discoveries ?Q) ?cycles" by (simp only: fd [symmetric])
  have once: "length (filter (same_ring r) ?cycles) = 1" if "r \<in> set ?raw" "qualifying r" for r
  proof -
    from that have rq: "r \<in> set ?Q" by simp
    from raw [OF rq] have dr: "distinct r" "r \<noteq> []" by simp_all
    from rq have m: "canonical_form r \<in> set ?cycles" by (simp add: set_first_occurrences)
    have "same_ring r c \<longleftrightarrow> c = canonical_form r" if c: "c \<in> set ?cycles" for c
    proof
      assume "same_ring r c"
      from same_ring_normalize [OF this dr(1)] el [OF c] qualifying_normalize [OF \<open>qualifying r\<close>]
      show "c = canonical_form r" by simp
    next
      assume "c = canonical_form r"
      with same_ring_canonical_form [OF dr(2)] show "same_ring r c" by simp
    qed
    then have "filter (same_ring r) ?cycles = filter (\<lambda>c. c = canonical_form r) ?cycles"
      by (intro filter_cong) simp_all
    also have "\<dots> = [canonical_form r]" using dc m by (rule filter_eq_single)
    finally show ?thesis by simp
  qed
  from d el dn pw la once show ?thesis by (intro exI [of _ ?cycles]) blast
qed

theorem detect_cycles_bounded_unique_witness:
  "cycles_simple all_starts_simple_cycles \<and>
   raw_cycles ref_strongly_connected_components all_starts_simple_cycles
     (prune (structure_of (build_graph clock_strptime two_ring_batch empty_state))) =
     [[''B'', ''C'', ''A''], [''B'', ''D'', ''A''], [''C'', ''A'', ''B''],
      [''A'', ''B'', ''C''], [''A'', ''B'', ''D''], [''D'', ''A'', ''B'']] \<and>
   detect_cycles ref_strongly_connected_components all_starts_simple_cycles
     (build_graph clock_strptime two_ring_batch empty_state) =
     Inr [[''A'', ''B'', ''C''], [''A'', ''B'', ''D'']] \<and>
   \<not> same_ring [''A'', ''B'', ''C''] [''A'', ''B'', ''D''] \<and>
   list_all2 same_ring [[''B'', ''C'', ''A''], [''B'', ''D'', ''A'']]
     [[''A'', ''B'', ''C''], [''A'', ''B'', ''D'']] \<and>
   length (filter (same_ring [''C'', ''A'', ''B'']) [[''A'', ''B'', ''C''], [''A'', ''B'', ''D'']]) = 1"
proof -
  let ?st = "build_graph clock_strptime two_ring_batch empty_state"
  let ?raw = "raw_cycles ref_strongly_connected_components all_starts_simple_cycles
     (prune (structure_of ?st))"
  let ?out = "[[''A'', ''B'', ''C''], [''A'', ''B'', ''D'']]"
  have r: "?raw = [[''B'', ''C'', ''A''], [''B'', ''D'', ''A''], [''C'', ''A'', ''B''],
      [''A'', ''B'', ''C''], [''A'', ''B'', ''D''], [''D'', ''A'', ''B'']]"
    by code_simp
  have e: "detect_cycles ref_strongly_connected_components all_starts_simple_cycles ?st = Inr ?out"
    by code_simp
  have f: "first_discoveries (filter qualifying
      [[''B'', ''C'', ''A''], [''B'', ''D'', ''A''], [''C'', ''A'', ''B''],
      [''A'', ''B'', ''C''], [''A'', ''B'', ''D''], [''D'', ''A'', ''B'']]) =
      [[''B'', ''C'', ''A''], [''B'', ''D'', ''A'']]"
    by code_simp
  have q: "qualifying [''C'', ''A'', ''B'']"
    by (simp add: qualifying_def MIN_CYCLE_LEN_def MAX_CYCLE_LEN_def)
  from detect_cycles_bounded_unique [OF all_starts_cycles_simple,
      of ref_strongly_connected_components ?st]
  obtain cycles where c: "detect_cycles ref_strongly_connected_components all_starts_simple_cycles ?st = Inr cycles"
    and pw: "\<forall>i<length cycles. \<forall>j<length cycles. i \<noteq> j \<longrightarrow> \<not> same_ring (cycles ! i) (cycles ! j)"
    and la: "list_all2 same_ring (first_discoveries (filter qualifying ?raw)) cycles"
    and on: "\<forall>r\<in>set ?raw. qualifying r \<longrightarrow> length (filter (same_ring r) cycles) = 1"
    by blast
  from c have ce: "cycles = ?out" by (simp only: e sum.inject)
  from pw [rule_format, of 0 1] have t1: "\<not> same_ring [''A'', ''B'', ''C''] [''A'', ''B'', ''D'']"
    by (simp add: ce)
  from la have t2: "list_all2 same_ring [[''B'', ''C'', ''A''], [''B'', ''D'', ''A'']] ?out"
    by (simp only: r f ce)
  have m: "[''C'', ''A'', ''B''] \<in> set ?raw" unfolding r by simp
  from on [rule_format, OF m q]
  have t3: "length (filter (same_ring [''C'', ''A'', ''B'']) ?out) = 1" by (simp only: ce)
  from all_starts_cycles_simple r e t1 t2 t3 show ?thesis by (intro conjI)
qed

lemma build_occurrences_count:
  assumes "build_occurrences cycles occ = Inr occ'"
  shows "length (lookup occ' k) = length (lookup occ k) + length (filter (\<lambda>d. normalize_cycle d = Inr k) cycles)"
  using assms
proof (induction cycles arbitrary: occ)
  case Nil
  then show ?case by simp
next
  case (Cons c cycles)
  from Cons.prems obtain n where n: "normalize_cycle c = Inr n"
    by (cases "normalize_cycle c") simp_all
  with Cons.prems have "build_occurrences cycles (dict_append n () occ) = Inr occ'" by simp
  from Cons.IH [OF this] n show ?case by (simp add: lookup_dict_append)
qed

lemma frequency_score_count:
  assumes b: "build_occurrences cycles [] = Inr occ" and c: "c \<noteq> []"
  shows "frequency_score c occ = Inr (min (real (occurrence_count cycles c) / 3) 1)"
proof -
  from normalize_cycle_split [OF c] obtain k where k: "normalize_cycle c = Inr k" by blast
  from build_occurrences_count [OF b, of k]
  have "length (lookup occ k) = occurrence_count cycles c"
    by (simp add: occurrence_count_def k lookup_def)
  then have "frequency_score c occ = Inr (clamp01 (min (real (occurrence_count cycles c) / 3) 1))"
    by (simp add: frequency_score_def k lookup_def Let_def)
  then show ?thesis by (simp add: clamp01_def)
qed

lemma build_occurrences_nonempty:
  "build_occurrences cycles occ = Inr occ' \<Longrightarrow> c \<in> set cycles \<Longrightarrow> c \<noteq> []"
proof (induction cycles arbitrary: occ)
  case Nil
  then show ?case by simp
next
  case (Cons d cycles)
  from Cons.prems(1) obtain n where n: "normalize_cycle d = Inr n"
    by (cases "normalize_cycle d") simp_all
  with Cons.prems(1) have r: "build_occurrences cycles (dict_append n () occ) = Inr occ'" by simp
  show ?case
  proof (cases "c = d")
    case True
    with n show ?thesis by (auto simp: normalize_cycle_def)
  next
    case False
    with Cons.prems(2) have "c \<in> set cycles" by simp
    from Cons.IH [OF r this] show ?thesis .
  qed
qed

lemma detect_cycles_count_one:
  assumes "detect_cycles sccf simple_cycles st = Inr cycles" and "c \<in> set cycles"
  shows "occurrence_count cycles c = 1"
proof -
  let ?raw = "raw_cycles sccf simple_cycles (prune (structure_of st))"
  from assms(1) detect_cycles_spec [of sccf simple_cycles st]
  have cy: "cycles = first_occurrences (map canonical_form (filter qualifying ?raw))" by simp
  then have d: "distinct cycles" by (simp add: distinct_first_occurrences)
  have nc: "normalize_cycle x = Inr x" if "x \<in> set cycles" for x
  proof -
    from that cy obtain r where "qualifying r" "x = canonical_form r"
      by (auto simp: set_first_occurrences)
    with canonical_form_props(4) show ?thesis by simp
  qed
  have "filter (\<lambda>d. normalize_cycle d = normalize_cycle c) cycles = filter (\<lambda>d. d = c) cycles"
    using nc assms(2) by (intro filter_cong) auto
  also have "\<dots> = [c]"
  proof -
    from filter_key_single [of "\<lambda>x. x" cycles c] d assms(2)
    obtain a where a: "filter (\<lambda>a. a = c) cycles = [a]" by auto
    then have "a \<in> set (filter (\<lambda>a. a = c) cycles)" by simp
    then have "a = c" by simp
    with a show ?thesis by simp
  qed
  finally show ?thesis by (simp add: occurrence_count_def)
qed

lemma run_frequency_constant:
  assumes "detect_cycles sccf simple_cycles st = Inr cycles"
    and "build_occurrences cycles [] = Inr occ" and "c \<in> set cycles"
  shows "frequency_score c occ = Inr (1 / 3)"
proof -
  from build_occurrences_nonempty [OF assms(2,3)] have "c \<noteq> []" .
  from frequency_score_count [OF assms(2) this] detect_cycles_count_one [OF assms(1,3)]
  show ?thesis by simp
qed

text \<open>
  Claim C1. The frequency sub-score of a cycle is \<open>min (n / 3) 1\<close> for the number \<open>n\<close>
  of entries that the occurrence map holds for its canonical form
  (\<open>frequency_score_count\<close>), but \<open>run\<close> fills the map from the list that
  \<open>detect_cycles\<close> returns, where every canonical form occurs once: the sub-score of
  every reported cycle of every batch is 1/3 (\<open>run_frequency_constant\<close>). On the batch
  in which the ring A, B, C is transacted three times, \<open>detect_cycles\<close> returns the ring
  once, its occurrence list has one entry and its frequency sub-score is 1/3: the same
  as on the batch in which the ring is transacted once, not higher, and not 1.
\<close>

theorem recurring_ring_frequency:
  "detect_cycles ref_strongly_connected_components ref_simple_cycles
     (build_graph clock_strptime recurring_batch empty_state) = Inr [[''A'', ''B'', ''C'']] \<and>
   detect_cycles ref_strongly_connected_components ref_simple_cycles
     (build_graph clock_strptime cycle_batch empty_state) = Inr [[''A'', ''B'', ''C'']] \<and>
   build_occurrences [[''A'', ''B'', ''C'']] [] = Inr [([''A'', ''B'', ''C''], [()])] \<and>
   frequency_score [''A'', ''B'', ''C''] [([''A'', ''B'', ''C''], [()])] = Inr (1 / 3)"
proof -
  have r: "detect_cycles ref_strongly_connected_components ref_simple_cycles
     (build_graph clock_strptime recurring_batch empty_state) = Inr [[''A'', ''B'', ''C'']]"
    by code_simp
  have o: "detect_cycles ref_strongly_connected_components ref_simple_cycles
     (build_graph clock_strptime cycle_batch empty_state) = Inr [[''A'', ''B'', ''C'']]"
    by code_simp
  have b: "build_occurrences [[''A'', ''B'', ''C'']] [] = Inr [([''A'', ''B'', ''C''], [()])]"
    by code_simp
  have f: "frequency_score [''A'', ''B'', ''C''] [([''A'', ''B'', ''C''], [()])] = Inr (1 / 3)"
    by (simp add: frequency_score_def normalize_cycle_def clamp01_def)
  from r o b f show ?thesis by simp
qed

section \<open>Score ranges of the three engines\<close>

lemma clamp01_range: "0 \<le> clamp01 x \<and> clamp01 x \<le> 1"
  by (simp add: clamp01_def)

lemma py_round2_range:
  assumes "0 \<le> x" and "x \<le> 100"
  shows "0 \<le> py_round2 x \<and> py_round2 x \<le> 100"
proof -
  define y where "y = x * 100"
  define f where "f = \<lfloor>y\<rfloor>"
  from assms have y: "0 \<le> y" "y \<le> 10000" by (simp_all add: y_def)
  then have f0: "0 \<le> f" and f1: "f \<le> 10000" unfolding f_def by (simp_all add: floor_le_iff le_floor_iff)
  have up: "f + 1 \<le> 10000" if "y - of_int f \<ge> 1 / 2"
  proof -
    from that have "of_int f < y" by simp
    with y(2) have "of_int f < (10000::real)" by simp
    then show ?thesis by simp
  qed
  have r0: "0 \<le> (of_int f :: real)" "0 \<le> (of_int (f + 1) :: real)" using f0 by simp_all
  have r1: "(of_int f :: real) \<le> 10000" using f1 by simp
  have r2: "(of_int (f + 1) :: real) \<le> 10000" if "y - of_int f \<ge> 1 / 2"
    using up [OF that] by (metis of_int_le_iff of_int_numeral)
  have "0 \<le> py_round2 x * 100 \<and> py_round2 x * 100 \<le> 10000"
    unfolding py_round2_def Let_def y_def [symmetric] f_def [symmetric]
    using r0 r1 r2 by (auto simp: not_less)
  then show ?thesis by simp
qed

lemma compute_range:
  "compute st cycle occ = Inr sc \<Longrightarrow> 0 \<le> sc \<and> sc \<le> 100"
proof -
  assume "compute st cycle occ = Inr sc"
  then obtain raw where "sc = py_round2 (clamp01 raw * 100)"
    by (auto simp: compute_def Let_def split: if_splits sum.splits)
  moreover have "0 \<le> clamp01 raw * 100 \<and> clamp01 raw * 100 \<le> 100"
    using clamp01_range [of raw] by simp
  ultimately show ?thesis using py_round2_range by blast
qed

lemma dict_append_mem:
  "(k', vs) \<in> set (dict_append k v d) \<Longrightarrow>
     (k', vs) \<in> set d \<or> (k' = k \<and> (vs = [v] \<or> (\<exists>vs0. (k, vs0) \<in> set d \<and> vs = vs0 @ [v])))"
  by (induction d) (auto split: if_splits)

lemma entries_ok_append:
  "entries_ok ad \<Longrightarrow> 0 \<le> score e \<and> score e \<le> 100 \<Longrightarrow> entries_ok (dict_append k e ad)"
  unfolding entries_ok_def
proof (intro allI impI)
  fix k' es
  assume ok: "\<forall>k es. (k, es) \<in> set ad \<longrightarrow> es \<noteq> [] \<and> (\<forall>e\<in>set es. 0 \<le> score e \<and> score e \<le> 100)"
    and e: "0 \<le> score e \<and> score e \<le> 100" and m: "(k', es) \<in> set (dict_append k e ad)"
  from dict_append_mem [OF m]
  consider "(k', es) \<in> set ad" | "es = [e]" | vs0 where "(k, vs0) \<in> set ad" "es = vs0 @ [e]"
    by blast
  then show "es \<noteq> [] \<and> (\<forall>e\<in>set es. 0 \<le> score e \<and> score e \<le> 100)"
  proof cases
    case 1
    with ok show ?thesis by blast
  next
    case 2
    with e show ?thesis by simp
  next
    case 3
    with ok e show ?thesis by auto
  qed
qed

lemma entries_ok_fold:
  "entries_ok ad \<Longrightarrow> 0 \<le> score e \<and> score e \<le> 100 \<Longrightarrow>
   entries_ok (fold (\<lambda>acc ad. dict_append acc e ad) ks ad)"
  by (induction ks arbitrary: ad) (simp_all add: entries_ok_append)

lemma score_cycles_range:
  assumes "score_cycles st occ idx cycles (rings, ad) = Inr (rings', ad')"
    and "\<forall>r\<in>set rings. 0 \<le> risk_score r \<and> risk_score r \<le> 100" and "entries_ok ad"
  shows "(\<forall>r\<in>set rings'. 0 \<le> risk_score r \<and> risk_score r \<le> 100) \<and> entries_ok ad'"
  using assms
proof (induction cycles arbitrary: idx rings ad)
  case Nil
  then show ?case by simp
next
  case (Cons cycle rest)
  from Cons.prems(1) obtain sc where sc: "compute st cycle occ = Inr sc"
    by (cases "compute st cycle occ") simp_all
  from Cons.prems(1) sc obtain ct where ct: "get_cycle_completion_time st cycle = Inr ct"
    by (cases "get_cycle_completion_time st cycle") (simp_all add: Let_def)
  let ?rid = "''RING_'' @ format_03d idx"
  let ?rings = "rings @ [\<lparr>ring_id = ?rid, member_accounts = cycle, pattern_type = ''cycle'',
                             risk_score = sc, detected_at = ct\<rparr>]"
  let ?e = "\<lparr>score = sc, entry_ring_id = ?rid, cycle_length = length cycle\<rparr>"
  let ?ad = "fold (\<lambda>acc ad. dict_append acc ?e ad) cycle ad"
  from Cons.prems(1) sc ct
  have step: "score_cycles st occ (Suc idx) rest (?rings, ?ad) = Inr (rings', ad')"
    by (simp add: Let_def)
  note rg = compute_range [OF sc]
  have r: "\<forall>r\<in>set ?rings. 0 \<le> risk_score r \<and> risk_score r \<le> 100"
    using Cons.prems(2) rg by auto
  have a: "entries_ok ?ad" using Cons.prems(3) rg by (intro entries_ok_fold) simp_all
  from Cons.IH [OF step r a] show ?case .
qed

lemma account_record_range:
  assumes "account_record acc es = Some a" and "es \<noteq> []"
    and "\<forall>e\<in>set es. 0 \<le> score e \<and> score e \<le> 100"
  shows "0 \<le> suspicion_score a \<and> suspicion_score a \<le> 100"
proof -
  from assms(1) have a: "suspicion_score a = py_round2 (Max (set (map score es)))"
    by (auto simp: account_record_def Let_def split: if_splits)
  from assms(2) have "Max (set (map score es)) \<in> set (map score es)"
    by (intro Max_in) simp_all
  with assms(3) have "0 \<le> Max (set (map score es)) \<and> Max (set (map score es)) \<le> 100" by auto
  with a py_round2_range show ?thesis by simp
qed

lemma circular_run_range:
  assumes "CircularFundRoutingDetector_run sp sccf sc txns = Inr res"
  shows "scores_in_range res"
proof -
  let ?st = "build_graph sp txns empty_state"
  from assms obtain cycles occ rings ad where
    s: "score_cycles ?st occ 1 cycles ([], []) = Inr (rings, ad)"
    and res: "res = \<lparr>suspicious_accounts =
                           List.map_filter (\<lambda>(acc, entries). account_record acc entries) ad,
                         fraud_rings = rings\<rparr>"
    by (auto simp: CircularFundRoutingDetector_run_def Let_def split: sum.splits prod.splits)
  from score_cycles_range [OF s] have rg: "\<forall>r\<in>set rings. 0 \<le> risk_score r \<and> risk_score r \<le> 100"
    and ok: "entries_ok ad" by (simp_all add: entries_ok_def)
  have "0 \<le> suspicion_score a \<and> suspicion_score a \<le> 100"
    if "a \<in> set (List.map_filter (\<lambda>(acc, entries). account_record acc entries) ad)" for a
  proof -
    from that obtain k es where "(k, es) \<in> set ad" "account_record k es = Some a"
      by (auto simp: map_filter_mem)
    with ok account_record_range [of k es a] show ?thesis by (auto simp: entries_ok_def)
  qed
  with rg res show ?thesis by (simp add: scores_in_range_def)
qed

lemma smurfing_run_range:
  assumes "SmurfingDetector_run sp txns = Inr res"
  shows "scores_in_range res"
  using run_outputs [OF assms] by (auto simp: scores_in_range_def)

lemma shell_run_range: "scores_in_range (ShellNetworkDetector_run wcc asp txns)"
proof -
  obtain G cnt where b: "shell_build txns empty_graph [] = (G, cnt)" by (cases "shell_build txns empty_graph []")
  define shells where "shells = map fst (filter (\<lambda>(node, count). 2 \<le> count \<and> count \<le> 3) cnt)"
  define sg where "sg = subgraph G shells"
  define st0 where "st0 = \<lparr>detected_shells = {}, sh_suspicious = [], sh_rings = []\<rparr>"
  define st where "st = scan_components asp G sg (wcc sg) st0"
  let ?res = "ShellNetworkDetector_run wcc asp txns"
  have res: "?res = (if shells = [] then \<lparr>suspicious_accounts = [], fraud_rings = []\<rparr>
                     else \<lparr>suspicious_accounts = sh_suspicious st, fraud_rings = sh_rings st\<rparr>)"
    by (simp add: ShellNetworkDetector_run_def b shells_def sg_def st_def st0_def Let_def)
  have inv0: "shell_inv st0" by (simp add: shell_inv_def st0_def)
  have rings0: "\<forall>r\<in>set (sh_rings st0). ring_ok (UNIV \<inter> detected_shells st0) r"
    by (simp add: st0_def)
  have paths: "\<forall>c\<in>set (wcc sg). \<forall>s\<in>set c. \<forall>p\<in>set (asp (subgraph sg c) s c). set p \<subseteq> UNIV"
    by simp
  from scan_components_inv [where shells = UNIV and asp = asp and G = G, OF inv0 rings0 paths]
  have "shell_inv st" and "\<forall>r\<in>set (sh_rings st). ring_ok (UNIV \<inter> detected_shells st) r"
    unfolding st_def by simp_all
  then show ?thesis unfolding res
    by (auto simp: scores_in_range_def shell_inv_def ring_ok_def)
qed

section \<open>Merging suspicious accounts\<close>

lemma find_merge_item:
  "find_acc (merge_item item M) a =
     (if a = account_id item then Some (merge_one (find_acc M a) item) else find_acc M a)"
  by (induction M) (auto simp: find_acc_def merge_one_def)

lemma ids_merge_item:
  "account_id ` set (merge_item item M) = insert (account_id item) (account_id ` set M)"
  by (induction M) auto

lemma distinct_merge_item:
  "distinct (map account_id M) \<Longrightarrow> distinct (map account_id (merge_item item M))"
proof (induction M)
  case Nil
  show ?case by simp
next
  case (Cons m M)
  show ?case
  proof (cases "account_id m = account_id item")
    case True
    with Cons.prems show ?thesis by simp
  next
    case False
    with Cons show ?thesis by (simp add: ids_merge_item)
  qed
qed

lemma merge_id_item: "account_id (merge_one prev item) = (case prev of None \<Rightarrow> account_id item | Some m \<Rightarrow> account_id m)"
  by (simp add: merge_one_def split: option.splits)

lemma fold_merge_find:
  "find_acc (fold merge_item items M) a =
     fold (\<lambda>item prev. Some (merge_one prev item)) (items_of items a) (find_acc M a)"
proof (induction items arbitrary: M)
  case Nil
  show ?case by (simp add: items_of_def)
next
  case (Cons i items)
  show ?case
    using Cons.IH [of "merge_item i M"] by (simp add: items_of_def find_merge_item)
qed

lemma fold_merge_distinct:
  "distinct (map account_id M) \<Longrightarrow> distinct (map account_id (fold merge_item items M))"
  by (induction items arbitrary: M) (simp_all add: distinct_merge_item)

lemma fold_merge_ids:
  "account_id ` set (fold merge_item items M) = account_id ` set M \<union> account_id ` set items"
  by (induction items arbitrary: M) (auto simp: ids_merge_item)

lemma fold_merge_some:
  "fold (\<lambda>item prev. Some (merge_one prev item)) its (Some m) =
     Some (m\<lparr>suspicion_score := Max (set (suspicion_score m # map suspicion_score its)),
             detected_patterns := detected_patterns m @ concat (map detected_patterns its)\<rparr>)"
proof (induction its arbitrary: m)
  case Nil
  show ?case by simp
next
  case (Cons i its)
  let ?m = "m\<lparr>suspicion_score := max (suspicion_score m) (suspicion_score i),
              detected_patterns := detected_patterns m @ detected_patterns i\<rparr>"
  have "fold (\<lambda>item prev. Some (merge_one prev item)) (i # its) (Some m) =
        fold (\<lambda>item prev. Some (merge_one prev item)) its (Some ?m)"
    by (simp add: merge_one_def)
  also have "\<dots> = Some (?m\<lparr>suspicion_score := Max (set (suspicion_score ?m # map suspicion_score its)),
             detected_patterns := detected_patterns ?m @ concat (map detected_patterns its)\<rparr>)"
    by (rule Cons.IH)
  also have "Max (set (suspicion_score ?m # map suspicion_score its)) =
             Max (set (suspicion_score m # map suspicion_score (i # its)))"
  proof -
    have "Max (insert (max (suspicion_score m) (suspicion_score i)) (set (map suspicion_score its))) =
          Max (insert (suspicion_score m) (insert (suspicion_score i) (set (map suspicion_score its))))"
      by (cases "its = []") (simp_all add: max.assoc max.commute max.left_commute)
    then show ?thesis by simp
  qed
  finally show ?case by simp
qed

lemma fold_merge_none:
  "fold (\<lambda>item prev. Some (merge_one prev item)) (i # its) None =
     Some \<lparr>account_id = account_id i,
           suspicion_score = Max (set (0 # map suspicion_score (i # its))),
           detected_patterns = concat (map detected_patterns (i # its)),
           ring_id = suspicious_account.ring_id i\<rparr>"
proof -
  let ?m = "\<lparr>account_id = account_id i, suspicion_score = max 0 (suspicion_score i),
            detected_patterns = detected_patterns i, ring_id = suspicious_account.ring_id i\<rparr>"
  have "fold (\<lambda>item prev. Some (merge_one prev item)) (i # its) None =
        fold (\<lambda>item prev. Some (merge_one prev item)) its (Some ?m)"
    by (simp add: merge_one_def)
  also have "\<dots> = Some (?m\<lparr>suspicion_score := Max (set (suspicion_score ?m # map suspicion_score its)),
             detected_patterns := detected_patterns ?m @ concat (map detected_patterns its)\<rparr>)"
    by (rule fold_merge_some)
  also have "Max (set (suspicion_score ?m # map suspicion_score its)) =
             Max (set (0 # map suspicion_score (i # its)))"
  proof -
    have "Max (insert (max 0 (suspicion_score i)) (set (map suspicion_score its))) =
          Max (insert 0 (insert (suspicion_score i) (set (map suspicion_score its))))"
      by (cases "its = []") (simp_all add: max.assoc max.commute max.left_commute)
    then show ?thesis by simp
  qed
  finally show ?thesis by simp
qed

lemma distinct_map_sort_desc:
  "distinct (map f (sort_desc k xs)) = distinct (map f xs)"
  by (simp add: sort_desc_def distinct_map)

lemma set_sort_desc: "set (sort_desc k xs) = set xs"
  by (simp add: sort_desc_def)

lemma sorted_sort_desc: "sorted_wrt (\<lambda>a b. k a \<ge> k b) (sort_desc k xs)"
proof -
  have "sorted (map k (sort_key k (rev xs)))" by (rule sorted_sort_key)
  then have "sorted_wrt (\<lambda>a b. k a \<le> k b) (sort_key k (rev xs))" by (simp add: sorted_map)
  then show ?thesis by (simp add: sort_desc_def sorted_wrt_rev)
qed

lemma aggregate_unfold:
  "suspicious_accounts (aggregate c s h) =
     sort_desc suspicion_score (map finalize (fold merge_item (all_suspicious c s h) []))"
  "fraud_rings (aggregate c s h) = fraud_rings c @ fraud_rings s @ fraud_rings h"
  by (simp_all add: aggregate_def all_suspicious_def Let_def finalize_def [abs_def])

lemma aggregate_account:
  assumes "a \<in> account_id ` set (all_suspicious c s h)"
  shows "\<exists>i its. items_of (all_suspicious c s h) a = i # its \<and>
     filter (\<lambda>x. account_id x = a) (suspicious_accounts (aggregate c s h)) =
       [\<lparr>account_id = a,
         suspicion_score = Max (set (0 # map suspicion_score (i # its))),
         detected_patterns = sort (remdups (concat (map detected_patterns (i # its)))),
         ring_id = suspicious_account.ring_id i\<rparr>]"
proof -
  let ?all = "all_suspicious c s h"
  let ?M = "fold merge_item ?all []"
  let ?L = "sort_desc suspicion_score (map finalize ?M)"
  from assms have "items_of ?all a \<noteq> []" by (auto simp: items_of_def filter_empty_conv)
  then obtain i its where its: "items_of ?all a = i # its" by (cases "items_of ?all a") auto
  then have "i \<in> set (items_of ?all a)" by simp
  then have ia: "account_id i = a" by (simp add: items_of_def)
  define m where "m = \<lparr>account_id = a,
           suspicion_score = Max (set (0 # map suspicion_score (i # its))),
           detected_patterns = concat (map detected_patterns (i # its)),
           ring_id = suspicious_account.ring_id i\<rparr>"
  have "find_acc ?M a = Some m"
    using fold_merge_find [of ?all "[]" a] its fold_merge_none [of i its] ia
    by (simp add: find_acc_def m_def)
  then have mM: "m \<in> set ?M" and "account_id m = a"
    by (auto simp: find_acc_def find_Some_iff)
  have dM: "distinct (map account_id ?M)" by (rule fold_merge_distinct) simp
  have idf: "account_id (finalize x) = account_id x" for x by (simp add: finalize_def)
  have dL: "distinct (map account_id ?L)"
    using dM by (simp add: distinct_map_sort_desc idf comp_def)
  have "finalize m \<in> set ?L" using mM by (simp add: set_sort_desc)
  moreover have "account_id (finalize m) = a" using \<open>account_id m = a\<close> by (simp add: idf)
  ultimately have "a \<in> account_id ` set ?L" by (metis imageI)
  from filter_key_single [OF dL this] obtain x where x: "x \<in> set ?L"
    and f: "filter (\<lambda>x. account_id x = a) ?L = [x]" by blast
  from f have "x \<in> set (filter (\<lambda>x. account_id x = a) ?L)" by simp
  then have xa: "account_id x = a" by simp
  from x obtain m' where m': "m' \<in> set ?M" "x = finalize m'" by (auto simp: set_sort_desc)
  with xa have "account_id m' = a" by (simp add: idf)
  with dM mM m'(1) \<open>account_id m = a\<close> have "m' = m"
    by (metis distinct_map inj_onD)
  with m'(2) have "x = finalize m" by simp
  with f its show ?thesis by (simp add: aggregate_unfold m_def finalize_def)
qed

section \<open>The circular detector on a three-account cycle\<close>

lemma cycle_state_eq:
  "cycle_state =
   \<lparr>graph_nodes = [''A'', ''B'', ''C''],
    graph_edges =
      [((''A'', ''B''), \<lparr>weight = 1, total_amount = 100\<rparr>),
       ((''B'', ''C''), \<lparr>weight = 1, total_amount = 100\<rparr>),
       ((''C'', ''A''), \<lparr>weight = 1, total_amount = 100\<rparr>)],
    edge_meta =
      [((''A'', ''B''), [\<lparr>meta_amount = 100, meta_timestamp = Some 36000\<rparr>]),
       ((''B'', ''C''), [\<lparr>meta_amount = 100, meta_timestamp = Some 39600\<rparr>]),
       ((''C'', ''A''), [\<lparr>meta_amount = 100, meta_timestamp = Some 43200\<rparr>])]\<rparr>"
  by code_simp

lemma cycle_detect:
  "detect_cycles ref_strongly_connected_components ref_simple_cycles cycle_state = Inr [[''A'', ''B'', ''C'']]"
  by code_simp

lemma cycle_occ: "build_occurrences [[''A'', ''B'', ''C'']] [] = Inr [([''A'', ''B'', ''C''], [()])]"
  by code_simp

lemma cycle_amount:
  "amount_similarity_score (graph_edges cycle_state) (cycle_edges [''A'', ''B'', ''C'']) = Inr 1"
  by (simp add: cycle_state_eq cycle_edges_def amount_similarity_score_def stdev_def clamp01_def)

lemma cycle_time:
  "time_score (edge_meta cycle_state) (cycle_edges [''A'', ''B'', ''C'']) = 83 / 84"
  by (simp add: cycle_state_eq cycle_edges_def time_score_def edge_timestamps_def
      List.map_filter_simps MAX_ALLOWED_DURATION_def clamp01_def)

lemma cycle_freq:
  "frequency_score [''A'', ''B'', ''C''] [([''A'', ''B'', ''C''], [()])] = Inr (1 / 3)"
  by (simp add: frequency_score_def normalize_cycle_def clamp01_def)

lemma cycle_volume:
  "volume_score (graph_edges cycle_state) [''A'', ''B'', ''C''] (cycle_edges [''A'', ''B'', ''C'']) = Inr 1"
  by (simp add: cycle_state_eq cycle_edges_def volume_score_def out_edges_def clamp01_def)

lemma cycle_length: "length_score [''A'', ''B'', ''C''] = 1"
  by (simp add: length_score_def MAX_CYCLE_LEN_def MIN_CYCLE_LEN_def clamp01_def)

lemma cycle_compute:
  "compute cycle_state [''A'', ''B'', ''C''] [([''A'', ''B'', ''C''], [()])] = Inr (8643 / 100)"
proof -
  have raw: "W_LENGTH + W_AMOUNT + W_TIME * 83 / 84 + W_FREQUENCY / 3 + W_VOLUME
             = (121 / 140 :: real)"
    by (simp add: W_LENGTH_def W_AMOUNT_def W_TIME_def W_FREQUENCY_def W_VOLUME_def)
  have fl: "\<lfloor>(60500 / 7 :: real)\<rfloor> = 8642" by (simp add: floor_eq_iff)
  have "py_round2 (clamp01 (121 / 140) * 100) = 8643 / 100"
    by (simp add: py_round2_def clamp01_def Let_def fl)
  then show ?thesis
    by (simp add: compute_def cycle_amount cycle_time cycle_freq cycle_volume cycle_length raw Let_def)
qed

lemma cycle_completion:
  "get_cycle_completion_time cycle_state [''A'', ''B'', ''C''] = Inr (Some 43200)"
  by (simp add: get_cycle_completion_time_def cycle_state_eq cycle_edges_def edge_timestamps_def
      List.map_filter_simps)

lemma format_001: "format_03d (Suc 0) = ''001''"
  by code_simp

lemma round_8643: "py_round2 (8643 / 100) = 8643 / 100"
  by (simp add: py_round2_def Let_def)

lemma cycle_account_record:
  "account_record acc [\<lparr>score = 8643 / 100, entry_ring_id = ''RING_001'', cycle_length = 3\<rparr>] =
     Some (cycle_account acc)"
  by (simp add: account_record_def Let_def HIGH_RISK_THRESHOLD_def entry_patterns_def
      round_8643 cycle_account_def)

lemma cycle_scores:
  "score_cycles cycle_state [([''A'', ''B'', ''C''], [()])] (Suc 0) [[''A'', ''B'', ''C'']] ([], []) =
     Inr ([cycle_ring],
          [(''A'', [\<lparr>score = 8643 / 100, entry_ring_id = ''RING_001'', cycle_length = 3\<rparr>]),
           (''B'', [\<lparr>score = 8643 / 100, entry_ring_id = ''RING_001'', cycle_length = 3\<rparr>]),
           (''C'', [\<lparr>score = 8643 / 100, entry_ring_id = ''RING_001'', cycle_length = 3\<rparr>])])"
  by (simp add: cycle_compute cycle_completion format_001 cycle_ring_def Let_def)

lemma cycle_run:
  "CircularFundRoutingDetector_run clock_strptime ref_strongly_connected_components
     ref_simple_cycles cycle_batch =
   Inr \<lparr>suspicious_accounts = [cycle_account ''A'', cycle_account ''B'', cycle_account ''C''],
        fraud_rings = [cycle_ring]\<rparr>"
  by (simp add: CircularFundRoutingDetector_run_def cycle_state_def [symmetric] cycle_detect
      cycle_occ cycle_scores Let_def List.map_filter_simps cycle_account_record
      del: build_occurrences.simps score_cycles.simps)

section \<open>The aggregated report, score bounds and self-transactions\<close>

text \<open>
  Claim C7. For an account that appears in the engines' suspicious-account lists, the
  aggregated list holds exactly one record for it; its score is the maximum of 0 and of
  the scores reported for the account, which is the maximum of the reported scores when
  none is negative; its patterns are the sorted, duplicate-free union of the reported
  tags. The aggregated list is sorted by score in descending order and the fraud rings
  are the three ring lists concatenated.
\<close>

theorem aggregate_merge:
  assumes "a \<in> account_id ` set (all_suspicious c s h)"
  shows "(\<exists>m. filter (\<lambda>x. account_id x = a) (suspicious_accounts (aggregate c s h)) = [m] \<and>
            suspicion_score m = Max (insert 0 (suspicion_score ` set (items_of (all_suspicious c s h) a))) \<and>
            ((\<forall>i\<in>set (items_of (all_suspicious c s h) a). 0 \<le> suspicion_score i) \<longrightarrow>
               suspicion_score m = Max (suspicion_score ` set (items_of (all_suspicious c s h) a))) \<and>
            set (detected_patterns m) = (\<Union>i\<in>set (items_of (all_suspicious c s h) a). set (detected_patterns i)) \<and>
            sorted (detected_patterns m) \<and> distinct (detected_patterns m)) \<and>
         sorted_wrt (\<lambda>x y. suspicion_score x \<ge> suspicion_score y) (suspicious_accounts (aggregate c s h)) \<and>
         fraud_rings (aggregate c s h) = fraud_rings c @ fraud_rings s @ fraud_rings h"
proof -
  let ?its = "items_of (all_suspicious c s h) a"
  from aggregate_account [OF assms] obtain i its where its: "?its = i # its"
    and f: "filter (\<lambda>x. account_id x = a) (suspicious_accounts (aggregate c s h)) =
       [\<lparr>account_id = a,
         suspicion_score = Max (set (0 # map suspicion_score (i # its))),
         detected_patterns = sort (remdups (concat (map detected_patterns (i # its)))),
         ring_id = suspicious_account.ring_id i\<rparr>]" by blast
  let ?S = "suspicion_score ` set ?its"
  have S: "finite ?S" "?S \<noteq> {}" using its by simp_all
  have m0: "Max (set (0 # map suspicion_score (i # its))) = Max (insert 0 ?S)"
    using its by simp
  have nonneg: "Max (insert 0 ?S) = Max ?S" if "\<forall>i\<in>set ?its. 0 \<le> suspicion_score i"
  proof -
    from S have "Max ?S \<in> ?S" by (rule Max_in)
    with that have "0 \<le> Max ?S" by auto
    with S show ?thesis by (simp add: max_def)
  qed
  have pat: "set (sort (remdups (concat (map detected_patterns (i # its))))) =
             (\<Union>i\<in>set ?its. set (detected_patterns i))"
    using its by simp
  have srt: "sorted_wrt (\<lambda>x y. suspicion_score x \<ge> suspicion_score y) (suspicious_accounts (aggregate c s h))"
    unfolding aggregate_unfold by (rule sorted_sort_desc)
  from f m0 nonneg pat srt aggregate_unfold(2) [of c s h] show ?thesis
    by (intro conjI exI [of _ "\<lparr>account_id = a,
         suspicion_score = Max (set (0 # map suspicion_score (i # its))),
         detected_patterns = sort (remdups (concat (map detected_patterns (i # its)))),
         ring_id = suspicious_account.ring_id i\<rparr>"]) simp_all
qed

theorem aggregate_merge_witness:
  "''X'' \<in> account_id ` set (all_suspicious merge_circular merge_smurfing merge_shell) \<and>
   suspicion_score ` set (items_of (all_suspicious merge_circular merge_smurfing merge_shell) ''X'') = {70, 85} \<and>
   (\<exists>m. filter (\<lambda>x. account_id x = ''X'')
           (suspicious_accounts (aggregate merge_circular merge_smurfing merge_shell)) = [m] \<and>
        suspicion_score m = 85 \<and> set (detected_patterns m) = {''cycle_length_3'', ''fan_in''}) \<and>
   fraud_rings (aggregate merge_circular merge_smurfing merge_shell) =
     fraud_rings merge_circular @ fraud_rings merge_smurfing"
proof -
  have a: "''X'' \<in> account_id ` set (all_suspicious merge_circular merge_smurfing merge_shell)"
    by (simp add: all_suspicious_def merge_circular_def merge_smurfing_def merge_shell_def)
  have s: "suspicion_score ` set (items_of (all_suspicious merge_circular merge_smurfing merge_shell) ''X'') = {70, 85}"
    by (simp add: items_of_def all_suspicious_def merge_circular_def merge_smurfing_def merge_shell_def)
  have p: "(\<Union>i\<in>set (items_of (all_suspicious merge_circular merge_smurfing merge_shell) ''X'').
              set (detected_patterns i)) = {''cycle_length_3'', ''fan_in''}"
    by (auto simp: items_of_def all_suspicious_def merge_circular_def merge_smurfing_def merge_shell_def)
  have n: "\<forall>i\<in>set (items_of (all_suspicious merge_circular merge_smurfing merge_shell) ''X''). 0 \<le> suspicion_score i"
    by (simp add: items_of_def all_suspicious_def merge_circular_def merge_smurfing_def merge_shell_def)
  have h: "fraud_rings merge_shell = []" by (simp add: merge_shell_def)
  from aggregate_merge [OF a] n obtain m where
    "filter (\<lambda>x. account_id x = ''X'')
           (suspicious_accounts (aggregate merge_circular merge_smurfing merge_shell)) = [m]"
    "suspicion_score m = Max (suspicion_score ` set (items_of (all_suspicious merge_circular merge_smurfing merge_shell) ''X''))"
    "set (detected_patterns m) = (\<Union>i\<in>set (items_of (all_suspicious merge_circular merge_smurfing merge_shell) ''X''). set (detected_patterns i))"
    "fraud_rings (aggregate merge_circular merge_smurfing merge_shell) =
       fraud_rings merge_circular @ fraud_rings merge_smurfing @ fraud_rings merge_shell"
    by blast
  then have "filter (\<lambda>x. account_id x = ''X'')
           (suspicious_accounts (aggregate merge_circular merge_smurfing merge_shell)) = [m] \<and>
        suspicion_score m = 85 \<and> set (detected_patterns m) = {''cycle_length_3'', ''fan_in''} \<and>
        fraud_rings (aggregate merge_circular merge_smurfing merge_shell) =
          fraud_rings merge_circular @ fraud_rings merge_smurfing"
    unfolding s p h by simp
  with a s show ?thesis by blast
qed

lemma aggregate_range:
  assumes "scores_in_range c" and "scores_in_range s" and "scores_in_range h"
  shows "scores_in_range (aggregate c s h)"
proof -
  let ?all = "all_suspicious c s h"
  from assms have all: "\<forall>i\<in>set ?all. 0 \<le> suspicion_score i \<and> suspicion_score i \<le> 100"
    by (auto simp: scores_in_range_def all_suspicious_def)
  have acc: "0 \<le> suspicion_score x \<and> suspicion_score x \<le> 100"
    if "x \<in> set (suspicious_accounts (aggregate c s h))" for x
  proof -
    have idf: "account_id (finalize y) = account_id y" for y by (simp add: finalize_def)
    from that obtain y where "y \<in> set (fold merge_item ?all [])" "x = finalize y"
      by (auto simp: aggregate_unfold set_sort_desc)
    then have "account_id x \<in> account_id ` set (fold merge_item ?all [])" by (simp add: idf)
    then have a: "account_id x \<in> account_id ` set ?all" by (simp add: fold_merge_ids)
    from aggregate_account [OF a] obtain i its where its: "items_of ?all (account_id x) = i # its"
      and f: "filter (\<lambda>z. account_id z = account_id x) (suspicious_accounts (aggregate c s h)) =
       [\<lparr>account_id = account_id x,
         suspicion_score = Max (set (0 # map suspicion_score (i # its))),
         detected_patterns = sort (remdups (concat (map detected_patterns (i # its)))),
         ring_id = suspicious_account.ring_id i\<rparr>]" by blast
    define R where "R = \<lparr>account_id = account_id x,
         suspicion_score = Max (set (0 # map suspicion_score (i # its))),
         detected_patterns = sort (remdups (concat (map detected_patterns (i # its)))),
         ring_id = suspicious_account.ring_id i\<rparr>"
    from that have "x \<in> set (filter (\<lambda>z. account_id z = account_id x) (suspicious_accounts (aggregate c s h)))"
      by simp
    then have "x \<in> set [R]" unfolding f R_def .
    then have "x = R" by simp
    moreover have "suspicion_score R = Max (set (0 # map suspicion_score (i # its)))"
      by (simp add: R_def)
    ultimately have sx: "suspicion_score x = Max (set (0 # map suspicion_score (i # its)))"
      by (simp only:)
    have "set (i # its) \<subseteq> set ?all" using its [symmetric] by (simp add: items_of_def)
    with all have "\<forall>v\<in>set (0 # map suspicion_score (i # its)). 0 \<le> v \<and> v \<le> 100" by auto
    moreover have "Max (set (0 # map suspicion_score (i # its))) \<in> set (0 # map suspicion_score (i # its))"
      by (intro Max_in) simp_all
    ultimately show ?thesis unfolding sx by blast
  qed
  from assms have "\<forall>r\<in>set (fraud_rings (aggregate c s h)). 0 \<le> risk_score r \<and> risk_score r \<le> 100"
    by (auto simp: scores_in_range_def aggregate_unfold)
  with acc show ?thesis by (simp add: scores_in_range_def)
qed

text \<open>
  Claim C2. Every risk score of a fraud ring and every suspicion score of a
  suspicious-account record lies in \<open>[0, 100]\<close>: in the result of each of the three
  engines, and in the aggregated report.
\<close>

theorem scores_bounded:
  "(CircularFundRoutingDetector_run sp sccf simple_cycles txns = Inr c \<longrightarrow> scores_in_range c) \<and>
   (SmurfingDetector_run sp txns = Inr s \<longrightarrow> scores_in_range s) \<and>
   scores_in_range (ShellNetworkDetector_run wcc asp txns) \<and>
   (analyze sp sccf simple_cycles wcc asp txns = Inr resp \<longrightarrow> scores_in_range resp)"
proof -
  have "scores_in_range resp" if "analyze sp sccf simple_cycles wcc asp txns = Inr resp"
  proof -
    from that obtain c' s' where "CircularFundRoutingDetector_run sp sccf simple_cycles txns = Inr c'"
      "SmurfingDetector_run sp txns = Inr s'"
      "resp = aggregate c' s' (ShellNetworkDetector_run wcc asp txns)"
      by (auto simp: analyze_def split: sum.splits)
    with circular_run_range smurfing_run_range shell_run_range aggregate_range show ?thesis by blast
  qed
  with circular_run_range smurfing_run_range shell_run_range show ?thesis by blast
qed

lemma cycle_batch_smurfing:
  "SmurfingDetector_run clock_strptime cycle_batch = Inr \<lparr>suspicious_accounts = [], fraud_rings = []\<rparr>"
  by code_simp

theorem scores_bounded_witness:
  "CircularFundRoutingDetector_run clock_strptime ref_strongly_connected_components
     ref_simple_cycles cycle_batch =
     Inr \<lparr>suspicious_accounts = [cycle_account ''A'', cycle_account ''B'', cycle_account ''C''],
          fraud_rings = [cycle_ring]\<rparr> \<and>
   scores_in_range \<lparr>suspicious_accounts = [cycle_account ''A'', cycle_account ''B'', cycle_account ''C''],
          fraud_rings = [cycle_ring]\<rparr> \<and>
   (\<exists>s. SmurfingDetector_run example_strptime fan_batch = Inr s \<and> scores_in_range s) \<and>
   scores_in_range (ShellNetworkDetector_run ref_weakly_connected_components ref_all_simple_paths shell_batch) \<and>
   (\<exists>resp. analyze clock_strptime ref_strongly_connected_components ref_simple_cycles
              ref_weakly_connected_components ref_all_simple_paths cycle_batch = Inr resp \<and>
            scores_in_range resp)"
proof -
  note c = cycle_run
  from fan_batch_run obtain s where s: "SmurfingDetector_run example_strptime fan_batch = Inr s" ..
  have a: "analyze clock_strptime ref_strongly_connected_components ref_simple_cycles
              ref_weakly_connected_components ref_all_simple_paths cycle_batch =
           Inr (aggregate \<lparr>suspicious_accounts = [cycle_account ''A'', cycle_account ''B'', cycle_account ''C''],
                           fraud_rings = [cycle_ring]\<rparr>
                  \<lparr>suspicious_accounts = [], fraud_rings = []\<rparr>
                  (ShellNetworkDetector_run ref_weakly_connected_components ref_all_simple_paths cycle_batch))"
    by (simp add: analyze_def cycle_run cycle_batch_smurfing)
  from scores_bounded [where sp = clock_strptime and sccf = ref_strongly_connected_components
      and simple_cycles = ref_simple_cycles and txns = cycle_batch
      and wcc = ref_weakly_connected_components and asp = ref_all_simple_paths] c a
  have 1: "scores_in_range \<lparr>suspicious_accounts = [cycle_account ''A'', cycle_account ''B'', cycle_account ''C''],
          fraud_rings = [cycle_ring]\<rparr>"
    and 2: "\<exists>resp. analyze clock_strptime ref_strongly_connected_components ref_simple_cycles
              ref_weakly_connected_components ref_all_simple_paths cycle_batch = Inr resp \<and>
            scores_in_range resp"
    by blast+
  from scores_bounded [where sp = example_strptime and txns = fan_batch and s = s] s
  have 3: "scores_in_range s" by blast
  from scores_bounded [where wcc = ref_weakly_connected_components and asp = ref_all_simple_paths
      and txns = shell_batch]
  have 4: "scores_in_range (ShellNetworkDetector_run ref_weakly_connected_components ref_all_simple_paths shell_batch)"
    by blast
  from c 1 2 3 4 s show ?thesis by blast
qed

lemma build_graph_discards:
  "build_graph sp (filter (\<lambda>t. has_ids t \<and> sender_id t \<noteq> receiver_id t) txns) st = build_graph sp txns st"
proof (induction txns arbitrary: st)
  case Nil
  show ?case by simp
next
  case (Cons t rest)
  show ?case
  proof (cases "has_ids t \<and> sender_id t \<noteq> receiver_id t")
    case True
    with Cons.IH show ?thesis by (simp add: has_ids_def Let_def)
  next
    case False
    with Cons.IH [of st] show ?thesis by (auto simp: has_ids_def Let_def)
  qed
qed

lemma shell_build_discards:
  "shell_build (filter has_ids txns) G cnt = shell_build txns G cnt"
proof (induction txns arbitrary: G cnt)
  case Nil
  show ?case by simp
next
  case (Cons t rest)
  show ?case
  proof (cases "has_ids t")
    case True
    with Cons.IH show ?thesis by (simp add: has_ids_def Let_def)
  next
    case False
    with Cons.IH [of G cnt] show ?thesis by (auto simp: has_ids_def Let_def)
  qed
qed

lemma group_txns_discards:
  "group_txns sp txns fan_in fan_out = Inr x \<Longrightarrow>
   group_txns sp (filter has_ids txns) fan_in fan_out = Inr x"
proof (induction txns arbitrary: fan_in fan_out)
  case Nil
  then show ?case by simp
next
  case (Cons t rest)
  from Cons.prems obtain a where a: "py_float (amount t) = Inr a"
    by (cases "py_float (amount t)") (simp_all add: Let_def)
  show ?case
  proof (cases "has_ids t")
    case True
    show ?thesis
    proof (cases "parse_ts sp (timestamp t) = None")
      case True
      with Cons.prems a have "group_txns sp rest fan_in fan_out = Inr x" by (simp add: Let_def)
      from Cons.IH [OF this] True a \<open>has_ids t\<close> show ?thesis by (simp add: Let_def)
    next
      case False
      with Cons.prems a True Cons.IH show ?thesis by (simp add: has_ids_def Let_def)
    qed
  next
    case False
    with Cons.prems a have "group_txns sp rest fan_in fan_out = Inr x"
      by (auto simp: has_ids_def Let_def split: if_splits)
    from Cons.IH [OF this] False show ?thesis by simp
  qed
qed

text \<open>
  Claim C4 on self-transactions. \<open>build_graph\<close> of the circular engine drops a record
  whose sender is its receiver, but the shell and the smurfing engines only test that both
  ids are present: there a self-transaction is counted and changes the output.
\<close>

theorem self_transaction_counted:
  "build_graph example_strptime [fan_txn ''Aggregator'' ''Aggregator''] empty_state = empty_state \<and>
   ShellNetworkDetector_run ref_weakly_connected_components ref_all_simple_paths shell_pair =
     \<lparr>suspicious_accounts = [], fraud_rings = []\<rparr> \<and>
   txn_count (shell_pair @ [sh_txn ''S2'' ''S2'']) ''S2'' = 3 \<and>
   fraud_rings (ShellNetworkDetector_run ref_weakly_connected_components ref_all_simple_paths
                  (shell_pair @ [sh_txn ''S2'' ''S2''])) =
     [\<lparr>ring_id = ''SHELL_S1'', member_accounts = [''S1'', ''S2''], pattern_type = ''shell_network'',
       risk_score = 75, detected_at = None\<rparr>] \<and>
   SmurfingDetector_run example_strptime nine_senders =
     Inr \<lparr>suspicious_accounts = [], fraud_rings = []\<rparr> \<and>
   SmurfingDetector_run example_strptime (nine_senders @ [fan_txn ''Aggregator'' ''Aggregator'']) =
     Inr \<lparr>suspicious_accounts =
            [\<lparr>account_id = ''Aggregator'', suspicion_score = 80, detected_patterns = [''fan_in''],
              ring_id = ''SMURF_IN_Aggregator''\<rparr>],
          fraud_rings =
            [\<lparr>ring_id = ''SMURF_IN_Aggregator'',
              member_accounts = take 9 user_ids @ [''Aggregator'', ''Aggregator''],
              pattern_type = ''fan_in'', risk_score = 85, detected_at = Some 36000\<rparr>]\<rparr>"
proof -
  have 1: "build_graph example_strptime [fan_txn ''Aggregator'' ''Aggregator''] empty_state = empty_state"
    by (simp add: fan_txn_def truthy_def)
  have 2: "ShellNetworkDetector_run ref_weakly_connected_components ref_all_simple_paths shell_pair =
     \<lparr>suspicious_accounts = [], fraud_rings = []\<rparr>" by code_simp
  have 3: "txn_count (shell_pair @ [sh_txn ''S2'' ''S2'']) ''S2'' = 3" by code_simp
  have 4: "fraud_rings (ShellNetworkDetector_run ref_weakly_connected_components ref_all_simple_paths
                  (shell_pair @ [sh_txn ''S2'' ''S2''])) =
     [\<lparr>ring_id = ''SHELL_S1'', member_accounts = [''S1'', ''S2''], pattern_type = ''shell_network'',
       risk_score = 75, detected_at = None\<rparr>]" by code_simp
  have 5: "SmurfingDetector_run example_strptime nine_senders =
     Inr \<lparr>suspicious_accounts = [], fraud_rings = []\<rparr>" by code_simp
  have 6: "SmurfingDetector_run example_strptime (nine_senders @ [fan_txn ''Aggregator'' ''Aggregator'']) =
     Inr \<lparr>suspicious_accounts =
            [\<lparr>account_id = ''Aggregator'', suspicion_score = 80, detected_patterns = [''fan_in''],
              ring_id = ''SMURF_IN_Aggregator''\<rparr>],
          fraud_rings =
            [\<lparr>ring_id = ''SMURF_IN_Aggregator'',
              member_accounts = take 9 user_ids @ [''Aggregator'', ''Aggregator''],
              pattern_type = ''fan_in'', risk_score = 85, detected_at = Some 36000\<rparr>]\<rparr>" by code_simp
  from 1 2 3 4 5 6 show ?thesis by blast
qed

end
